theory Spec2Isabelle
  imports Main "HOL-Library.AList" "HOL-Library.Sublist"
begin

section \<open>Data model of the bot session service\<close>

text \<open>
  The service is the second half of \<^verbatim>\<open>src/server/services/email.ts\<close>: a process-wide
  \<^verbatim>\<open>Map<string, BotSession>\<close> and the functions \<^verbatim>\<open>createWhatsAppBot\<close>,
  \<^verbatim>\<open>getSessionStatus\<close>, \<^verbatim>\<open>disconnectBot\<close> and \<^verbatim>\<open>getActiveSessions\<close>.

  A socket handle is a natural number. Every call of \<^verbatim>\<open>createWhatsAppBot\<close> makes at most
  one socket (\<^verbatim>\<open>makeWASocket\<close> is called once in the promise executor), so the handle made
  by the call with index \<open>c\<close> is \<open>c\<close> itself.

  The stored \<^verbatim>\<open>BotSession\<close> objects are reached through the map only (the route that calls
  \<^verbatim>\<open>getSessionStatus\<close> reads the object and keeps no reference), so an entry is kept by
  value and \<^verbatim>\<open>session.isConnected = true\<close> rewrites the entry in its place.
\<close>

record BotSession =
  sessionId :: string
  socket :: nat
  qrCode :: "string option"
  isConnected :: bool
  userId :: string

text \<open>The promise returned by \<^verbatim>\<open>createWhatsAppBot\<close>: it resolves to
  \<^verbatim>\<open>{sessionId, qrCode}\<close> or rejects with an error, given by its message.\<close>

datatype promise = Pending | Fulfilled "string \<times> string" | Rejected string

text \<open>A promise settles once: \<^verbatim>\<open>resolve\<close> and \<^verbatim>\<open>reject\<close> on a settled promise do nothing.\<close>

definition settle :: "promise \<Rightarrow> promise \<Rightarrow> promise" where
  "settle new old = (case old of Pending \<Rightarrow> new | Fulfilled v \<Rightarrow> Fulfilled v | Rejected e \<Rightarrow> Rejected e)"

text \<open>The part of a \<^verbatim>\<open>connection.update\<close> event that the handler reads: \<^verbatim>\<open>connection\<close>,
  the value of \<^verbatim>\<open>(lastDisconnect?.error as Boom)?.output?.statusCode\<close> (\<open>None\<close> is
  \<^verbatim>\<open>undefined\<close>) and \<^verbatim>\<open>qr\<close>.\<close>

datatype connection = Connecting | Open | Close

record connection_update =
  connection :: "connection option"
  statusCode :: "int option"
  qr :: "string option"

text \<open>\<^verbatim>\<open>DisconnectReason.loggedOut\<close> of the transport library.\<close>

definition DisconnectReason_loggedOut :: int where
  "DisconnectReason_loggedOut = 401"

text \<open>
  One invocation of \<^verbatim>\<open>createWhatsAppBot\<close>: its arguments, how far it has run, the
  closure variable \<^verbatim>\<open>qrCodeGenerated\<close> and the promise it returned.
  \<open>AwaitingAuth\<close>: suspended at \<^verbatim>\<open>await useMultiFileAuthState(authDir)\<close>.
  \<open>Running\<close>: the promise executor has run, so the socket exists and its handlers are
  registered. \<open>Aborted\<close>: \<^verbatim>\<open>mkdirSync\<close>, the await or \<^verbatim>\<open>makeWASocket\<close> threw.
\<close>

datatype phase = AwaitingAuth | Running | Aborted

record call =
  c_sessionName :: string
  c_userId :: string
  phase :: phase
  qrCodeGenerated :: bool
  result :: promise

text \<open>The two \<^verbatim>\<open>setTimeout\<close> callbacks of the source, with what they close over.\<close>

datatype timer = QrTimeout nat | Reconnect string string

text \<open>
  The state of the process. \<open>activeSessions\<close> is the \<^verbatim>\<open>Map\<close> in insertion order.
  \<open>timers\<close> holds the pending timeouts with their due time in milliseconds, \<open>now\<close> is the
  clock. \<open>dirs\<close> is the set of directories that exist, each an absolute path given by
  its segments; \<open>ended\<close> lists the sockets on which \<^verbatim>\<open>end()\<close> was called; \<open>cwd\<close> is
  \<^verbatim>\<open>process.cwd()\<close>, an absolute path. \<open>mkdir_error\<close> is what the file system answers
  when asked to make one directory: \<open>None\<close> when it makes it, \<open>Some e\<close> when it refuses
  with the error \<open>e\<close> (a name longer than the file system allows, no permission, a
  read-only or full disk).
\<close>

record state =
  activeSessions :: "(string \<times> BotSession) list"
  calls :: "call list"
  timers :: "(nat \<times> timer) list"
  now :: nat
  dirs :: "string list set"
  ended :: "nat list"
  cwd :: string
  mkdir_error :: "string list \<Rightarrow> string option"

definition init :: "string \<Rightarrow> string list set \<Rightarrow> (string list \<Rightarrow> string option) \<Rightarrow> state" where
  "init wd ds fs = \<lparr>activeSessions = [], calls = [], timers = [], now = 0, dirs = ds,
     ended = [], cwd = wd, mkdir_error = fs\<rparr>"

section \<open>Paths\<close>

text \<open>
  \<^verbatim>\<open>path.join\<close> (POSIX) joins its non-empty arguments with \<^verbatim>\<open>/\<close> and normalises the
  result: empty and \<^verbatim>\<open>.\<close> segments are dropped, \<^verbatim>\<open>..\<close> removes the segment before it
  and is dropped at the root. The result is kept as the list of its segments. Splitting
  the joined string at \<^verbatim>\<open>/\<close> gives the splits of the arguments one after the other.
\<close>

fun split_path :: "string \<Rightarrow> string list" where
  "split_path [] = [[]]"
| "split_path (x # xs) =
     (if x = CHR ''/'' then [] # split_path xs
      else (case split_path xs of [] \<Rightarrow> [[x]] | w # ws \<Rightarrow> (x # w) # ws))"

fun normalize_segs :: "string list \<Rightarrow> string list \<Rightarrow> string list" where
  "normalize_segs acc [] = rev acc"
| "normalize_segs acc (g # gs) =
     (if g = [] \<or> g = ''.'' then normalize_segs acc gs
      else if g = ''..'' then normalize_segs (tl acc) gs
      else normalize_segs (g # acc) gs)"

definition path_join :: "string list \<Rightarrow> string list" where
  "path_join args = normalize_segs [] (concat (map split_path (filter (\<lambda>a. a \<noteq> []) args)))"

section \<open>createWhatsAppBot\<close>

text \<open>\<^verbatim>\<open>const sessionId = `${userId}-${sessionName}`\<close>\<close>

definition mk_sessionId :: "string \<Rightarrow> string \<Rightarrow> string" where
  "mk_sessionId uid name = uid @ ''-'' @ name"

definition authDir :: "string \<Rightarrow> string \<Rightarrow> string list" where
  "authDir wd sid = path_join [wd, ''auth_sessions'', sid]"

definition call_sessionId :: "call \<Rightarrow> string" where
  "call_sessionId k = mk_sessionId (c_userId k) (c_sessionName k)"

text \<open>\<^verbatim>\<open>fs.existsSync\<close> on a directory path. The root always exists.\<close>

definition existsSync :: "string list \<Rightarrow> string list set \<Rightarrow> bool" where
  "existsSync p ds = (p = [] \<or> p \<in> ds)"

text \<open>
  \<^verbatim>\<open>fs.mkdirSync(authDir, { recursive: true })\<close> makes the missing directories on the way
  to \<^verbatim>\<open>authDir\<close>, from the root down, and \<^verbatim>\<open>authDir\<close> last. When the file system
  refuses one of them it throws that error; the directories made before it stay. The
  result is the error thrown, if any, and the directories that exist afterwards.
  The file system is taken to hold directories only.
\<close>

fun mkdir_each ::
  "(string list \<Rightarrow> string option) \<Rightarrow> string list list \<Rightarrow> string list set \<Rightarrow>
   string option \<times> string list set" where
  "mkdir_each fs [] ds = (None, ds)"
| "mkdir_each fs (q # qs) ds =
     (if q \<in> ds then mkdir_each fs qs ds
      else (case fs q of
              Some e \<Rightarrow> (Some e, ds)
            | None \<Rightarrow> mkdir_each fs qs (insert q ds)))"

definition mkdirSync_recursive ::
  "(string list \<Rightarrow> string option) \<Rightarrow> string list \<Rightarrow> string list set \<Rightarrow>
   string option \<times> string list set" where
  "mkdirSync_recursive fs p ds = mkdir_each fs (tl (prefixes p)) ds"

text \<open>
  Lines 68 to 71: \<^verbatim>\<open>if (!fs.existsSync(authDir)) fs.mkdirSync(authDir, ...)\<close>, with the
  error thrown, if any, and the directories that exist afterwards.
\<close>

definition ensure_authDir :: "string list \<Rightarrow> state \<Rightarrow> string option \<times> string list set" where
  "ensure_authDir d s =
     (if existsSync d (dirs s) then (None, dirs s)
      else mkdirSync_recursive (mkdir_error s) d (dirs s))"

text \<open>
  Lines 65 to 73, up to the \<^verbatim>\<open>await\<close>: the session id, the directory, and the call
  suspends. When \<^verbatim>\<open>mkdirSync\<close> throws, the \<^verbatim>\<open>async\<close> function rejects its promise with
  that error at once and goes no further. The new call has index \<open>length (calls s)\<close>.
\<close>

definition createWhatsAppBot_begin :: "string \<Rightarrow> string \<Rightarrow> state \<Rightarrow> state" where
  "createWhatsAppBot_begin name uid s =
     (let sid = mk_sessionId uid name;
          d = authDir (cwd s) sid;
          thrown = fst (ensure_authDir d s);
          ds = snd (ensure_authDir d s)
      in s\<lparr>dirs := ds,
            calls := calls s @
              [\<lparr>c_sessionName = name, c_userId = uid,
                phase = (case thrown of None \<Rightarrow> AwaitingAuth | Some e \<Rightarrow> Aborted),
                qrCodeGenerated = False,
                result = (case thrown of None \<Rightarrow> Pending | Some e \<Rightarrow> Rejected e)\<rparr>]\<rparr>)"

text \<open>
  \<^verbatim>\<open>reject\<close> and \<^verbatim>\<open>resolve\<close> of the promise of call \<open>c\<close>. They are closure variables of
  that call, so they are used with \<open>c < length (calls s)\<close> only.
\<close>

definition reject :: "nat \<Rightarrow> string \<Rightarrow> state \<Rightarrow> state" where
  "reject c e s = s\<lparr>calls := (calls s)[c := (calls s ! c)\<lparr>result := settle (Rejected e) (result (calls s ! c))\<rparr>]\<rparr>"

definition resolve :: "nat \<Rightarrow> string \<times> string \<Rightarrow> state \<Rightarrow> state" where
  "resolve c v s = s\<lparr>calls := (calls s)[c := (calls s ! c)\<lparr>result := settle (Fulfilled v) (result (calls s ! c))\<rparr>]\<rparr>"

text \<open>\<^verbatim>\<open>useMultiFileAuthState\<close> rejected: the \<^verbatim>\<open>async\<close> function rejects its promise.\<close>

definition createWhatsAppBot_auth_failed :: "nat \<Rightarrow> string \<Rightarrow> state \<Rightarrow> state" where
  "createWhatsAppBot_auth_failed c e s =
     (if c < length (calls s) \<and> phase (calls s ! c) = AwaitingAuth
      then reject c e (s\<lparr>calls := (calls s)[c := (calls s ! c)\<lparr>phase := Aborted\<rparr>]\<rparr>)
      else s)"

text \<open>
  \<^verbatim>\<open>useMultiFileAuthState\<close> resolved: the promise executor runs (lines 75 to 136).
  \<open>sock\<close> is what \<^verbatim>\<open>makeWASocket\<close> does: \<open>None\<close> when it returns the socket, \<open>Some e\<close> when
  it throws \<open>e\<close>, which rejects the promise before anything is stored. Otherwise the
  handlers are registered, the session is stored and the 10 second timer is set.
\<close>

definition createWhatsAppBot_resume :: "nat \<Rightarrow> string option \<Rightarrow> state \<Rightarrow> state" where
  "createWhatsAppBot_resume c sock s =
     (if c < length (calls s) \<and> phase (calls s ! c) = AwaitingAuth then
        (case sock of
           Some e \<Rightarrow> reject c e (s\<lparr>calls := (calls s)[c := (calls s ! c)\<lparr>phase := Aborted\<rparr>]\<rparr>)
         | None \<Rightarrow>
            (let k = calls s ! c; sid = call_sessionId k
             in s\<lparr>calls := (calls s)[c := k\<lparr>phase := Running\<rparr>],
                  activeSessions := AList.update sid
                     \<lparr>sessionId = sid, socket = c, qrCode = None, isConnected = False,
                      userId = c_userId k\<rparr> (activeSessions s),
                  timers := timers s @ [(now s + 10000, QrTimeout c)]\<rparr>))
      else s)"

text \<open>
  The \<^verbatim>\<open>connection.update\<close> handler of the socket of call \<open>c\<close> (lines 83 to 118).
  \<^verbatim>\<open>qr\<close> is truthy when it is a non-empty string.
\<close>

definition on_qr :: "nat \<Rightarrow> connection_update \<Rightarrow> state \<Rightarrow> state" where
  "on_qr c u s =
     (case qr u of
        None \<Rightarrow> s
      | Some q \<Rightarrow>
          if q \<noteq> [] \<and> \<not> qrCodeGenerated (calls s ! c)
          then resolve c (call_sessionId (calls s ! c), q)
                 (s\<lparr>calls := (calls s)[c := (calls s ! c)\<lparr>qrCodeGenerated := True\<rparr>]\<rparr>)
          else s)"

definition on_connection :: "nat \<Rightarrow> connection_update \<Rightarrow> state \<Rightarrow> state" where
  "on_connection c u s =
     (let k = calls s ! c; sid = call_sessionId k in
      if connection u = Some Close then
        (let shouldReconnect = (statusCode u \<noteq> Some DisconnectReason_loggedOut) in
         if shouldReconnect
         then s\<lparr>timers := timers s @ [(now s + 5000, Reconnect (c_sessionName k) (c_userId k))]\<rparr>
         else s\<lparr>activeSessions := AList.delete sid (activeSessions s)\<rparr>)
      else if connection u = Some Open then
        (case map_of (activeSessions s) sid of
           Some session \<Rightarrow>
             s\<lparr>activeSessions := AList.update sid (session\<lparr>isConnected := True\<rparr>) (activeSessions s)\<rparr>
         | None \<Rightarrow> s)
      else s)"

text \<open>An event on a socket that does not exist reaches no handler.\<close>

definition on_connection_update :: "nat \<Rightarrow> connection_update \<Rightarrow> state \<Rightarrow> state" where
  "on_connection_update c u s =
     (if c < length (calls s) \<and> phase (calls s ! c) = Running
      then on_connection c u (on_qr c u s)
      else s)"

section \<open>The other exported functions\<close>

definition getSessionStatus :: "string \<Rightarrow> state \<Rightarrow> BotSession option" where
  "getSessionStatus sid s = map_of (activeSessions s) sid"

definition disconnectBot :: "string \<Rightarrow> state \<Rightarrow> bool \<times> state" where
  "disconnectBot sid s =
     (case map_of (activeSessions s) sid of
        Some session \<Rightarrow>
          (True, s\<lparr>ended := ended s @ [socket session],
                   activeSessions := AList.delete sid (activeSessions s)\<rparr>)
      | None \<Rightarrow> (False, s))"

definition getActiveSessions :: "state \<Rightarrow> BotSession list" where
  "getActiveSessions s = map snd (activeSessions s)"

section \<open>Timers and the event loop\<close>

text \<open>
  The callbacks: the 10 second one rejects when no QR code was generated (lines 131 to
  135), the 5 second one calls \<^verbatim>\<open>createWhatsAppBot(sessionName, userId)\<close> again, which
  runs up to its \<^verbatim>\<open>await\<close> (lines 102 to 104). A 10 second timer is set by the call it
  names, so \<open>c < length (calls s)\<close> holds whenever one fires.
\<close>

fun fire :: "timer \<Rightarrow> state \<Rightarrow> state" where
  "fire (QrTimeout c) s =
     (if c < length (calls s) \<and> \<not> qrCodeGenerated (calls s ! c)
      then reject c ''Failed to generate QR code'' s else s)"
| "fire (Reconnect name uid) s = createWhatsAppBot_begin name uid s"

text \<open>The earliest pending timer that is due at time \<open>t\<close>; among equals the older one.\<close>

fun next_due :: "nat \<Rightarrow> (nat \<times> timer) list \<Rightarrow> (nat \<times> timer) option" where
  "next_due t [] = None"
| "next_due t (x # xs) =
     (case next_due t xs of
        None \<Rightarrow> (if fst x \<le> t then Some x else None)
      | Some y \<Rightarrow> (if fst x \<le> fst y then Some x else Some y))"

text \<open>
  The event loop runs the due callbacks in order of their due time. No callback sets a
  timer or reads the clock, so the loop ends when the due timers are used up.
\<close>

function run_until :: "nat \<Rightarrow> state \<Rightarrow> state" where
  "run_until t s =
     (case next_due t (timers s) of
        None \<Rightarrow> s
      | Some x \<Rightarrow> run_until t (fire (snd x) (s\<lparr>timers := remove1 x (timers s)\<rparr>)))"
  by pat_completeness auto
termination
proof (relation "measure (\<lambda>(t, s). length (timers s))")
  show "wf (measure (\<lambda>(t, s). length (timers s)))" by simp
next
  fix t and s :: state and x
  assume due: "next_due t (timers s) = Some x"
  have mem: "next_due t xs = Some y \<Longrightarrow> y \<in> set xs" for xs y
    by (induction xs arbitrary: y) (auto split: option.splits if_splits)
  have same: "timers (fire a s') = timers s'" for a s'
    by (cases a) (simp_all add: reject_def createWhatsAppBot_begin_def Let_def)
  from due have "x \<in> set (timers s)" by (rule mem)
  then have "length (remove1 x (timers s)) < length (timers s)"
    using length_pos_if_in_set [of x "timers s"] by (simp add: length_remove1)
  then show "((t, fire (snd x) (s\<lparr>timers := remove1 x (timers s)\<rparr>)), (t, s))
      \<in> measure (\<lambda>(t, s). length (timers s))"
    by (simp add: same)
qed

declare run_until.simps [simp del]

definition advance :: "nat \<Rightarrow> state \<Rightarrow> state" where
  "advance d s = (run_until (now s + d) s)\<lparr>now := now s + d\<rparr>"

section \<open>Runs\<close>

text \<open>
  What happens to the process, one event loop turn at a time: a caller invokes
  \<^verbatim>\<open>createWhatsAppBot\<close> or \<^verbatim>\<open>disconnectBot\<close>, the credential store answers the
  pending \<^verbatim>\<open>await\<close> of a call, the transport emits \<^verbatim>\<open>connection.update\<close> on a socket,
  or time passes.
\<close>

datatype input =
    Create string string
  | AuthFailed nat string
  | AuthLoaded nat "string option"
  | ConnectionUpdate nat connection_update
  | Disconnect string
  | Advance nat

fun step :: "state \<Rightarrow> input \<Rightarrow> state" where
  "step s (Create name uid) = createWhatsAppBot_begin name uid s"
| "step s (AuthFailed c e) = createWhatsAppBot_auth_failed c e s"
| "step s (AuthLoaded c sock) = createWhatsAppBot_resume c sock s"
| "step s (ConnectionUpdate c u) = on_connection_update c u s"
| "step s (Disconnect sid) = snd (disconnectBot sid s)"
| "step s (Advance d) = advance d s"

fun run :: "state \<Rightarrow> input list \<Rightarrow> state" where
  "run s [] = s"
| "run s (i # is) = run (step s i) is"

text \<open>The turns in which a session with the id \<open>sid\<close> is stored anew.\<close>

fun creates :: "string \<Rightarrow> state \<Rightarrow> input \<Rightarrow> bool" where
  "creates sid s (AuthLoaded c None) =
     (c < length (calls s) \<and> phase (calls s ! c) = AwaitingAuth \<and> call_sessionId (calls s ! c) = sid)"
| "creates sid s i = False"

fun no_creation :: "string \<Rightarrow> state \<Rightarrow> input list \<Rightarrow> bool" where
  "no_creation sid s [] = True"
| "no_creation sid s (i # is) = (\<not> creates sid s i \<and> no_creation sid (step s i) is)"

text \<open>A turn in which the socket of call \<open>c\<close> emits a pairing artifact.\<close>

fun artifact_for :: "nat \<Rightarrow> input \<Rightarrow> bool" where
  "artifact_for c (ConnectionUpdate c' u) = (c' = c \<and> (case qr u of None \<Rightarrow> False | Some q \<Rightarrow> q \<noteq> []))"
| "artifact_for c i = False"

section \<open>Scenarios\<close>

text \<open>
  Events and states used to run the model on concrete inputs: the transport's updates,
  and the states along the life of the session \<^verbatim>\<open>user-1-mybot\<close> of a process started in
  \<^verbatim>\<open>/app\<close> with no directory made yet, on a file system that refuses nothing.
  \<open>readonly_process\<close> is the same process on a file system that refuses every directory.
\<close>

definition qr_update :: "string \<Rightarrow> connection_update" where
  "qr_update q = \<lparr>connection = None, statusCode = None, qr = Some q\<rparr>"

definition open_update :: connection_update where
  "open_update = \<lparr>connection = Some Open, statusCode = None, qr = None\<rparr>"

definition close_update :: "int option \<Rightarrow> connection_update" where
  "close_update code = \<lparr>connection = Some Close, statusCode = code, qr = None\<rparr>"

definition logout_update :: connection_update where
  "logout_update = close_update (Some DisconnectReason_loggedOut)"

definition fresh_process :: state where
  "fresh_process = init ''/app'' {} (\<lambda>p. None)"

definition readonly_process :: state where
  "readonly_process = init ''/app'' {} (\<lambda>p. Some ''EROFS'')"

definition started_session :: state where
  "started_session = run fresh_process [Create ''mybot'' ''user-1'', AuthLoaded 0 None]"

definition paired_session :: state where
  "paired_session = run started_session [ConnectionUpdate 0 (qr_update ''QR1'')]"

definition open_session :: state where
  "open_session = run (init ''/app'' {} (\<lambda>p. None))
     [Create ''mybot'' ''user-1'', AuthLoaded 0 None, ConnectionUpdate 0 open_update]"

definition closed_session :: state where
  "closed_session = run open_session [ConnectionUpdate 0 (close_update (Some 428))]"

definition reconnected_session :: state where
  "reconnected_session = run started_session
     [ConnectionUpdate 0 (close_update (Some 428)), Advance 5000]"

definition unpaired_session :: state where
  "unpaired_session = run (init ''/app'' {} (\<lambda>p. None))
     [Create ''mybot'' ''user-1'', AuthLoaded 0 None, Advance 9999]"

text \<open>The call record that \<open>createWhatsAppBot_begin\<close> appends.\<close>

definition fresh_call :: "string \<Rightarrow> string \<Rightarrow> call" where
  "fresh_call name uid = \<lparr>c_sessionName = name, c_userId = uid, phase = AwaitingAuth,
     qrCodeGenerated = False, result = Pending\<rparr>"

section \<open>Invariants\<close>

text \<open>
  \<open>later k k'\<close>: the call record \<open>k'\<close> is a later stage of \<open>k\<close>. The arguments never
  change, a call that left its \<^verbatim>\<open>await\<close> keeps its phase, a settled promise and a set
  \<^verbatim>\<open>qrCodeGenerated\<close> stay as they are.
\<close>

definition later :: "call \<Rightarrow> call \<Rightarrow> bool" where
  "later k k' =
     (c_sessionName k' = c_sessionName k \<and> c_userId k' = c_userId k \<and>
      (phase k \<noteq> AwaitingAuth \<longrightarrow> phase k' = phase k) \<and>
      (result k \<noteq> Pending \<longrightarrow> result k' = result k) \<and>
      (qrCodeGenerated k \<longrightarrow> qrCodeGenerated k'))"

text \<open>
  An entry of the registry is stored under its own \<open>sessionId\<close>, holds no \<open>qrCode\<close>, and
  its socket is the one made by a call that ran its executor for this session id.
\<close>

definition entry_ok :: "state \<Rightarrow> string \<times> BotSession \<Rightarrow> bool" where
  "entry_ok s e =
     (sessionId (snd e) = fst e \<and> qrCode (snd e) = None \<and>
      socket (snd e) < length (calls s) \<and> phase (calls s ! socket (snd e)) = Running \<and>
      call_sessionId (calls s ! socket (snd e)) = fst e)"

definition registry_ok :: "state \<Rightarrow> bool" where
  "registry_ok s =
     (distinct (map fst (activeSessions s)) \<and> list_all (entry_ok s) (activeSessions s))"

text \<open>
  A pending 10 second timer belongs to a call whose executor has run; every pending timer
  is due in the future; a call suspended at its \<^verbatim>\<open>await\<close> is untouched.
\<close>

definition timers_calls :: "state \<Rightarrow> bool" where
  "timers_calls s =
     (\<forall>x \<in> set (timers s). \<forall>c. snd x = QrTimeout c \<longrightarrow>
        c < length (calls s) \<and> phase (calls s ! c) = Running)"

definition timers_future :: "state \<Rightarrow> bool" where
  "timers_future s = (\<forall>x \<in> set (timers s). now s < fst x)"

definition calls_ok :: "state \<Rightarrow> bool" where
  "calls_ok s =
     (\<forall>c < length (calls s). phase (calls s ! c) = AwaitingAuth \<longrightarrow>
        result (calls s ! c) = Pending \<and> \<not> qrCodeGenerated (calls s ! c))"

definition state_ok :: "state \<Rightarrow> bool" where
  "state_ok s = (registry_ok s \<and> timers_calls s \<and> timers_future s \<and> calls_ok s)"

text \<open>The credential directory of every call that got past \<^verbatim>\<open>mkdirSync\<close> exists.\<close>

definition dirs_ok :: "state \<Rightarrow> bool" where
  "dirs_ok s =
     (\<forall>c < length (calls s). phase (calls s ! c) \<noteq> Aborted \<longrightarrow>
        existsSync (authDir (cwd s) (call_sessionId (calls s ! c))) (dirs s))"

text \<open>
  The call \<open>c\<close> waits for its first pairing artifact, with its 10 second timer due at \<open>D\<close>:
  either the timer is pending and the promise too, or the timer has fired, at a time
  \<open>D \<le> t\<close>, and rejected the promise.
\<close>

definition awaiting_qr :: "nat \<Rightarrow> nat \<Rightarrow> nat \<Rightarrow> state \<Rightarrow> bool" where
  "awaiting_qr c D t s =
     (c < length (calls s) \<and> phase (calls s ! c) = Running \<and>
      \<not> qrCodeGenerated (calls s ! c) \<and>
      (\<forall>d. (d, QrTimeout c) \<in> set (timers s) \<longrightarrow> d = D) \<and>
      ((D, QrTimeout c) \<in> set (timers s) \<and> result (calls s ! c) = Pending \<or>
       result (calls s ! c) = Rejected ''Failed to generate QR code'' \<and> D \<le> t))"

section \<open>Properties of the event loop and of single turns\<close>

lemma next_due_mem: "next_due t xs = Some x \<Longrightarrow> x \<in> set xs"
  by (induction xs arbitrary: x) (auto split: option.splits if_splits)

lemma timers_fire: "timers (fire a s) = timers s"
  by (cases a) (simp_all add: reject_def createWhatsAppBot_begin_def Let_def)

lemma later_refl [simp]: "later k k"
  by (simp add: later_def)

lemma later_trans: "later a b \<Longrightarrow> later b c \<Longrightarrow> later a c"
  by (auto simp: later_def)

lemma settle_simps [simp]:
  "settle new Pending = new"
  "settle new (Fulfilled v) = Fulfilled v"
  "settle new (Rejected e) = Rejected e"
  by (simp_all add: settle_def)

lemma settle_not_Pending: "old \<noteq> Pending \<Longrightarrow> settle new old = old"
  by (cases old) simp_all

lemma begin_later:
  "c < length (calls s) \<Longrightarrow>
   c < length (calls (createWhatsAppBot_begin n u s)) \<and>
   calls (createWhatsAppBot_begin n u s) ! c = calls s ! c"
  by (simp add: createWhatsAppBot_begin_def Let_def nth_append)

lemma reject_later:
  "c < length (calls s) \<Longrightarrow>
   c < length (calls (reject c' e s)) \<and> later (calls s ! c) (calls (reject c' e s) ! c)"
  by (cases "c = c'") (simp_all add: reject_def later_def settle_not_Pending)

lemma fire_later:
  "c < length (calls s) \<Longrightarrow>
   c < length (calls (fire a s)) \<and> later (calls s ! c) (calls (fire a s) ! c)"
  by (cases a) (simp_all add: reject_later begin_later)

lemma run_until_later:
  "c < length (calls s) \<Longrightarrow>
   c < length (calls (run_until t s)) \<and> later (calls s ! c) (calls (run_until t s) ! c)"
proof (induction t s rule: run_until.induct)
  case (1 t s)
  show ?case
  proof (cases "next_due t (timers s)")
    case None
    then show ?thesis using "1.prems" by (simp add: run_until.simps [of t s])
  next
    case (Some x)
    let ?s' = "fire (snd x) (s\<lparr>timers := remove1 x (timers s)\<rparr>)"
    have a: "c < length (calls ?s') \<and> later (calls s ! c) (calls ?s' ! c)"
      using fire_later [of c "s\<lparr>timers := remove1 x (timers s)\<rparr>" "snd x"] "1.prems" by simp
    then have "c < length (calls (run_until t ?s')) \<and> later (calls ?s' ! c) (calls (run_until t ?s') ! c)"
      using "1.IH" [OF Some] by simp
    with a show ?thesis
      using Some by (auto simp: run_until.simps [of t s] intro: later_trans)
  qed
qed

lemma auth_failed_later:
  "c < length (calls s) \<Longrightarrow>
   c < length (calls (createWhatsAppBot_auth_failed c' e s)) \<and>
   later (calls s ! c) (calls (createWhatsAppBot_auth_failed c' e s) ! c)"
  by (cases "c = c'")
     (simp_all add: createWhatsAppBot_auth_failed_def reject_def later_def settle_not_Pending)

lemma resume_later:
  "c < length (calls s) \<Longrightarrow>
   c < length (calls (createWhatsAppBot_resume c' k s)) \<and>
   later (calls s ! c) (calls (createWhatsAppBot_resume c' k s) ! c)"
  by (cases "c = c'")
     (simp_all add: createWhatsAppBot_resume_def reject_def later_def Let_def settle_not_Pending
        split: option.splits)

lemma on_qr_later:
  "c < length (calls s) \<Longrightarrow>
   c < length (calls (on_qr c' u s)) \<and> later (calls s ! c) (calls (on_qr c' u s) ! c)"
  by (cases "c = c'")
     (simp_all add: on_qr_def resolve_def later_def settle_not_Pending split: option.splits)

lemma calls_on_connection [simp]: "calls (on_connection c u s) = calls s"
  by (simp add: on_connection_def Let_def split: option.splits)

lemma calls_disconnectBot [simp]: "calls (snd (disconnectBot sid s)) = calls s"
  by (simp add: disconnectBot_def split: option.splits)

lemma step_later:
  assumes "c < length (calls s)"
  shows "c < length (calls (step s i)) \<and> later (calls s ! c) (calls (step s i) ! c)"
proof (cases i)
  case (Advance d)
  then show ?thesis using run_until_later [OF assms, of "now s + d"] by (simp add: advance_def)
qed (use assms in \<open>simp_all add: begin_later auth_failed_later resume_later on_qr_later
      on_connection_update_def\<close>)

lemma run_later:
  "c < length (calls s) \<Longrightarrow>
   c < length (calls (run s is)) \<and> later (calls s ! c) (calls (run s is) ! c)"
proof (induction "is" arbitrary: s)
  case Nil
  then show ?case by simp
next
  case (Cons i "is")
  from step_later [OF Cons.prems, of i] Cons.IH [of "step s i"]
  show ?case by (auto intro: later_trans)
qed

lemma later_Running: "later k k' \<Longrightarrow> phase k = Running \<Longrightarrow> phase k' = Running"
  by (simp add: later_def)

lemma later_sessionId: "later k k' \<Longrightarrow> call_sessionId k' = call_sessionId k"
  by (simp add: later_def call_sessionId_def)

lemma entry_ok_later:
  assumes "entry_ok s e"
    and "\<And>c. c < length (calls s) \<Longrightarrow> c < length (calls s') \<and> later (calls s ! c) (calls s' ! c)"
  shows "entry_ok s' e"
  using assms(1) assms(2) [of "socket (snd e)"]
  by (auto simp: entry_ok_def later_Running later_sessionId)

lemma set_update_cases: "e \<in> set (AList.update k v al) \<Longrightarrow> e = (k, v) \<or> e \<in> set al"
  by (induction al) (auto split: if_splits)

lemma set_delete_subset: "e \<in> set (AList.delete k al) \<Longrightarrow> e \<in> set al"
  by (simp add: AList.delete_eq)

lemma activeSessions_fire [simp]: "activeSessions (fire a s) = activeSessions s"
  by (cases a) (simp_all add: reject_def createWhatsAppBot_begin_def Let_def)

lemma activeSessions_run_until [simp]: "activeSessions (run_until t s) = activeSessions s"
proof (induction t s rule: run_until.induct)
  case (1 t s)
  then show ?case
    by (cases "next_due t (timers s)") (simp_all add: run_until.simps [of t s])
qed

lemma activeSessions_begin [simp]:
  "activeSessions (createWhatsAppBot_begin n u s) = activeSessions s"
  by (simp add: createWhatsAppBot_begin_def Let_def)

lemma activeSessions_reject [simp]: "activeSessions (reject c e s) = activeSessions s"
  by (simp add: reject_def)

lemma activeSessions_auth_failed [simp]:
  "activeSessions (createWhatsAppBot_auth_failed c e s) = activeSessions s"
  by (simp add: createWhatsAppBot_auth_failed_def)

lemma activeSessions_resume_throw [simp]:
  "activeSessions (createWhatsAppBot_resume c (Some e) s) = activeSessions s"
  by (simp add: createWhatsAppBot_resume_def)

lemma activeSessions_on_qr [simp]: "activeSessions (on_qr c u s) = activeSessions s"
  by (simp add: on_qr_def resolve_def split: option.splits)

lemma activeSessions_advance [simp]: "activeSessions (advance d s) = activeSessions s"
  by (simp add: advance_def)

text \<open>Where an entry of the registry after a turn comes from.\<close>

lemma registry_step_entry:
  assumes "e \<in> set (activeSessions (step s i))"
  shows "(\<exists>e0 \<in> set (activeSessions s). fst e = fst e0 \<and> sessionId (snd e) = sessionId (snd e0) \<and>
            qrCode (snd e) = qrCode (snd e0) \<and> socket (snd e) = socket (snd e0)) \<or>
         (\<exists>c. i = AuthLoaded c None \<and> c < length (calls s) \<and> phase (calls s ! c) = AwaitingAuth \<and>
            fst e = call_sessionId (calls s ! c) \<and> sessionId (snd e) = fst e \<and>
            qrCode (snd e) = None \<and> socket (snd e) = c)"
proof (cases i)
  case (AuthLoaded c sock)
  show ?thesis
  proof (cases sock)
    case None
    with AuthLoaded assms show ?thesis
      by (auto simp: createWhatsAppBot_resume_def Let_def split: if_splits
            dest!: set_update_cases)
  next
    case (Some err)
    with AuthLoaded assms show ?thesis by auto
  qed
next
  case (ConnectionUpdate c u)
  have "\<exists>e0\<in>set al. k = fst e0 \<and> sessionId v = sessionId (snd e0) \<and>
          qrCode v = qrCode (snd e0) \<and> socket v = socket (snd e0)"
    if "map_of al k = Some v" for al :: "(string \<times> BotSession) list" and k v
    using map_of_SomeD [OF that] by force
  with ConnectionUpdate assms show ?thesis
    by (auto simp: on_connection_update_def on_connection_def Let_def
          split: if_splits option.splits dest!: set_update_cases set_delete_subset)
next
  case (Disconnect sid)
  with assms show ?thesis
    by (auto simp: disconnectBot_def split: option.splits dest!: set_delete_subset)
qed (use assms in auto)

lemma distinct_registry_step:
  "distinct (map fst (activeSessions s)) \<Longrightarrow> distinct (map fst (activeSessions (step s i)))"
proof (cases i)
  case (AuthLoaded c sock)
  then show "distinct (map fst (activeSessions s)) \<Longrightarrow> ?thesis"
    by (cases sock) (simp_all add: createWhatsAppBot_resume_def Let_def distinct_update)
next
  case (ConnectionUpdate c u)
  then show "distinct (map fst (activeSessions s)) \<Longrightarrow> ?thesis"
    by (simp add: on_connection_update_def on_connection_def Let_def distinct_update
          distinct_delete split: option.splits)
next
  case (Disconnect sid)
  then show "distinct (map fst (activeSessions s)) \<Longrightarrow> ?thesis"
    by (simp add: disconnectBot_def distinct_delete split: option.splits)
qed simp_all

lemma registry_ok_step:
  assumes "registry_ok s"
  shows "registry_ok (step s i)"
proof -
  have d: "distinct (map fst (activeSessions (step s i)))"
    using assms by (simp add: registry_ok_def distinct_registry_step)
  have "entry_ok (step s i) e" if e: "e \<in> set (activeSessions (step s i))" for e
  proof -
    from registry_step_entry [OF e] show ?thesis
    proof (elim disjE bexE exE conjE)
      fix e0
      assume e0: "e0 \<in> set (activeSessions s)" and eq: "fst e = fst e0"
        "sessionId (snd e) = sessionId (snd e0)" "qrCode (snd e) = qrCode (snd e0)"
        "socket (snd e) = socket (snd e0)"
      from assms e0 have "entry_ok s e0" by (simp add: registry_ok_def list_all_iff)
      then have "entry_ok (step s i) e0" by (rule entry_ok_later) (rule step_later)
      with eq show ?thesis by (simp add: entry_ok_def)
    next
      fix c
      assume i: "i = AuthLoaded c None" and c: "c < length (calls s)"
        "phase (calls s ! c) = AwaitingAuth" and eq: "fst e = call_sessionId (calls s ! c)"
        "sessionId (snd e) = fst e" "qrCode (snd e) = None" "socket (snd e) = c"
      with i c eq show ?thesis
        by (simp add: entry_ok_def createWhatsAppBot_resume_def Let_def call_sessionId_def)
    qed
  qed
  with d show ?thesis by (simp add: registry_ok_def list_all_iff)
qed

lemma registry_ok_init: "registry_ok (init wd ds fs)"
  by (simp add: registry_ok_def init_def)

lemma registry_ok_run: "registry_ok s \<Longrightarrow> registry_ok (run s is)"
  by (induction "is" arbitrary: s) (simp_all add: registry_ok_step)

lemma timers_calls_later:
  assumes "timers_calls s"
    and "\<And>c. c < length (calls s) \<Longrightarrow> c < length (calls s') \<and> later (calls s ! c) (calls s' ! c)"
    and "set (timers s') \<subseteq> set (timers s)"
  shows "timers_calls s'"
  unfolding timers_calls_def
proof (intro ballI allI impI)
  fix x c
  assume "x \<in> set (timers s')" "snd x = QrTimeout c"
  with assms(1,3) have "c < length (calls s) \<and> phase (calls s ! c) = Running"
    by (auto simp: timers_calls_def)
  with assms(2) [of c] show "c < length (calls s') \<and> phase (calls s' ! c) = Running"
    by (auto dest: later_Running)
qed

lemma timers_begin [simp]: "timers (createWhatsAppBot_begin n u s) = timers s"
  by (simp add: createWhatsAppBot_begin_def Let_def)

lemma timers_reject [simp]: "timers (reject c e s) = timers s"
  by (simp add: reject_def)

lemma timers_auth_failed [simp]: "timers (createWhatsAppBot_auth_failed c e s) = timers s"
  by (simp add: createWhatsAppBot_auth_failed_def)

lemma timers_on_qr [simp]: "timers (on_qr c u s) = timers s"
  by (simp add: on_qr_def resolve_def split: option.splits)

lemma timers_disconnectBot [simp]: "timers (snd (disconnectBot sid s)) = timers s"
  by (simp add: disconnectBot_def split: option.splits)

lemma now_reject [simp]: "now (reject c e s) = now s"
  by (simp add: reject_def)

lemma now_begin [simp]: "now (createWhatsAppBot_begin n u s) = now s"
  by (simp add: createWhatsAppBot_begin_def Let_def)

lemma now_auth_failed [simp]: "now (createWhatsAppBot_auth_failed c e s) = now s"
  by (simp add: createWhatsAppBot_auth_failed_def)

lemma now_resume [simp]: "now (createWhatsAppBot_resume c k s) = now s"
  by (simp add: createWhatsAppBot_resume_def Let_def split: option.splits)

lemma now_on_connection_update [simp]: "now (on_connection_update c u s) = now s"
  by (simp add: on_connection_update_def on_connection_def on_qr_def resolve_def Let_def
        split: option.splits)

lemma now_disconnectBot [simp]: "now (snd (disconnectBot sid s)) = now s"
  by (simp add: disconnectBot_def split: option.splits)

lemma now_fire [simp]: "now (fire a s) = now s"
  by (cases a) (simp_all add: reject_def createWhatsAppBot_begin_def Let_def)

lemma calls_ok_fire:
  assumes "calls_ok s" and "\<And>c. a = QrTimeout c \<Longrightarrow> c < length (calls s) \<and> phase (calls s ! c) = Running"
  shows "calls_ok (fire a s)"
proof (cases a)
  case (QrTimeout c)
  with assms show ?thesis
    by (auto simp: calls_ok_def reject_def nth_list_update)
next
  case (Reconnect n u)
  with assms(1) show ?thesis
    by (auto simp: calls_ok_def createWhatsAppBot_begin_def Let_def nth_append
          split: option.splits)
qed

lemma run_until_ok:
  "timers_calls s \<Longrightarrow> calls_ok s \<Longrightarrow> timers_calls (run_until t s) \<and> calls_ok (run_until t s)"
proof (induction t s rule: run_until.induct)
  case (1 t s)
  show ?case
  proof (cases "next_due t (timers s)")
    case None
    with "1.prems" show ?thesis by (simp add: run_until.simps [of t s])
  next
    case (Some x)
    let ?s1 = "s\<lparr>timers := remove1 x (timers s)\<rparr>"
    let ?s' = "fire (snd x) ?s1"
    have x: "x \<in> set (timers s)" using Some by (rule next_due_mem)
    have tc: "timers_calls ?s'"
    proof (rule timers_calls_later [OF "1.prems"(1)])
      show "c < length (calls ?s') \<and> later (calls s ! c) (calls ?s' ! c)" if "c < length (calls s)" for c
        using fire_later [of c ?s1 "snd x"] that by simp
      show "set (timers ?s') \<subseteq> set (timers s)"
        by (simp add: timers_fire set_remove1_subset)
    qed
    have "calls_ok ?s1" using "1.prems"(2) by (simp add: calls_ok_def)
    then have "calls_ok ?s'"
      by (rule calls_ok_fire) (use x "1.prems"(1) in \<open>auto simp: timers_calls_def\<close>)
    with tc "1.IH" [OF Some] show ?thesis
      using Some by (simp add: run_until.simps [of t s])
  qed
qed

lemma next_due_None: "next_due t xs = None \<Longrightarrow> x \<in> set xs \<Longrightarrow> t < fst x"
  by (induction xs) (auto split: option.splits if_splits)

lemma run_until_no_due: "x \<in> set (timers (run_until t s)) \<Longrightarrow> t < fst x"
proof (induction t s rule: run_until.induct)
  case (1 t s)
  show ?case
  proof (cases "next_due t (timers s)")
    case None
    with "1.prems" show ?thesis by (simp add: run_until.simps [of t s] next_due_None)
  next
    case (Some y)
    with "1.prems" "1.IH" [OF Some] show ?thesis by (simp add: run_until.simps [of t s])
  qed
qed

lemma now_run_until [simp]: "now (run_until t s) = now s"
proof (induction t s rule: run_until.induct)
  case (1 t s)
  then show ?case
    by (cases "next_due t (timers s)") (simp_all add: run_until.simps [of t s])
qed

lemma timers_future_step: "timers_future s \<Longrightarrow> timers_future (step s i)"
proof (cases i)
  case (Advance d)
  then show ?thesis
    using run_until_no_due [of _ "now s + d" s]
    by (auto simp: timers_future_def advance_def)
next
  case (AuthLoaded c sock)
  then show "timers_future s \<Longrightarrow> ?thesis"
    by (cases sock) (auto simp: timers_future_def createWhatsAppBot_resume_def Let_def)
next
  case (ConnectionUpdate c u)
  then show "timers_future s \<Longrightarrow> ?thesis"
    by (auto simp: timers_future_def on_connection_update_def on_connection_def Let_def
          on_qr_def resolve_def split: option.splits)
qed (simp_all add: timers_future_def)

lemma calls_timers_ok_step:
  assumes "timers_calls s" "calls_ok s"
  shows "timers_calls (step s i) \<and> calls_ok (step s i)"
proof (cases i)
  case (Create n u)
  have "timers_calls (step s i)"
    by (rule timers_calls_later [OF assms(1) step_later]) (simp_all add: Create)
  moreover have "calls_ok (step s i)"
    using assms(2) Create
    by (auto simp: calls_ok_def createWhatsAppBot_begin_def Let_def nth_append
          split: option.splits)
  ultimately show ?thesis ..
next
  case (AuthFailed c e)
  have "timers_calls (step s i)"
    by (rule timers_calls_later [OF assms(1) step_later]) (simp_all add: AuthFailed)
  moreover have "calls_ok (step s i)"
    using assms(2) AuthFailed
    by (auto simp: calls_ok_def createWhatsAppBot_auth_failed_def reject_def nth_list_update)
  ultimately show ?thesis ..
next
  case (AuthLoaded c sock)
  show ?thesis
  proof (cases sock)
    case None
    have "timers_calls (step s i)"
      unfolding timers_calls_def
    proof (intro ballI allI impI)
      fix x c'
      assume x: "x \<in> set (timers (step s i))" "snd x = QrTimeout c'"
      show "c' < length (calls (step s i)) \<and> phase (calls (step s i) ! c') = Running"
      proof (cases "x \<in> set (timers s)")
        case True
        with assms(1) x have "c' < length (calls s) \<and> phase (calls s ! c') = Running"
          by (auto simp: timers_calls_def)
        with step_later [of c' s i] show ?thesis by (auto dest: later_Running)
      next
        case False
        with x AuthLoaded None show ?thesis
          by (auto simp: createWhatsAppBot_resume_def Let_def split: if_splits)
      qed
    qed
    moreover have "calls_ok (step s i)"
      using assms(2) AuthLoaded None
      by (auto simp: calls_ok_def createWhatsAppBot_resume_def Let_def nth_list_update)
    ultimately show ?thesis ..
  next
    case (Some e)
    have "timers_calls (step s i)"
      by (rule timers_calls_later [OF assms(1) step_later])
         (simp_all add: AuthLoaded Some createWhatsAppBot_resume_def)
    moreover have "calls_ok (step s i)"
      using assms(2) AuthLoaded Some
      by (auto simp: calls_ok_def createWhatsAppBot_resume_def reject_def nth_list_update)
    ultimately show ?thesis ..
  qed
next
  case (ConnectionUpdate c u)
  have "timers_calls (step s i)"
    unfolding timers_calls_def
  proof (intro ballI allI impI)
    fix x c'
    assume x: "x \<in> set (timers (step s i))" "snd x = QrTimeout c'"
    then have "x \<in> set (timers s)"
      using ConnectionUpdate
      by (auto simp: on_connection_update_def on_connection_def Let_def split: if_splits option.splits)
    with assms(1) x have "c' < length (calls s) \<and> phase (calls s ! c') = Running"
      by (auto simp: timers_calls_def)
    with step_later [of c' s i]
    show "c' < length (calls (step s i)) \<and> phase (calls (step s i) ! c') = Running"
      by (auto dest: later_Running)
  qed
  moreover have "calls_ok (step s i)"
    using assms(2) ConnectionUpdate
    by (auto simp: calls_ok_def on_connection_update_def on_qr_def resolve_def nth_list_update
          split: option.splits)
  ultimately show ?thesis ..
next
  case (Disconnect sid)
  have "timers_calls (step s i)"
    by (rule timers_calls_later [OF assms(1) step_later]) (simp_all add: Disconnect)
  moreover have "calls_ok (step s i)"
    using assms(2) Disconnect by (simp add: calls_ok_def)
  ultimately show ?thesis ..
next
  case (Advance d)
  from run_until_ok [OF assms, of "now s + d"] show ?thesis
    using Advance by (simp add: advance_def timers_calls_def calls_ok_def)
qed

lemma state_ok_init: "state_ok (init wd ds fs)"
  by (simp add: state_ok_def registry_ok_init)
     (simp add: init_def timers_calls_def timers_future_def calls_ok_def)

lemma state_ok_step: "state_ok s \<Longrightarrow> state_ok (step s i)"
  by (simp add: state_ok_def registry_ok_step timers_future_step calls_timers_ok_step)

lemma state_ok_run: "state_ok s \<Longrightarrow> state_ok (run s is)"
  by (induction "is" arbitrary: s) (simp_all add: state_ok_step)

lemma state_ok_reachable: "state_ok (run (init wd ds fs) is)"
  by (simp add: state_ok_run state_ok_init)

lemmas model_defs = fresh_process_def started_session_def
  init_def createWhatsAppBot_begin_def createWhatsAppBot_resume_def
  createWhatsAppBot_auth_failed_def on_connection_update_def on_connection_def on_qr_def
  resolve_def reject_def disconnectBot_def getSessionStatus_def getActiveSessions_def
  advance_def run_until.simps call_sessionId_def mk_sessionId_def authDir_def path_join_def
  mkdirSync_recursive_def existsSync_def ensure_authDir_def qr_update_def open_update_def close_update_def
  DisconnectReason_loggedOut_def Let_def

lemma status_stays_None_step:
  assumes "getSessionStatus sid s = None" "\<not> creates sid s i"
  shows "getSessionStatus sid (step s i) = None"
proof (cases i)
  case (AuthLoaded c sock)
  show ?thesis
  proof (cases sock)
    case None
    with AuthLoaded assms show ?thesis
      by (auto simp: getSessionStatus_def createWhatsAppBot_resume_def Let_def update_conv')
  next
    case (Some e)
    with AuthLoaded assms show ?thesis by (simp add: getSessionStatus_def)
  qed
next
  case (ConnectionUpdate c u)
  with assms show ?thesis
    by (auto simp: getSessionStatus_def on_connection_update_def on_connection_def Let_def
          update_conv' delete_conv' split: option.splits)
next
  case (Disconnect sid')
  with assms show ?thesis
    by (auto simp: getSessionStatus_def disconnectBot_def delete_conv' split: option.splits)
qed (use assms in \<open>simp_all add: getSessionStatus_def\<close>)

lemma status_stays_None:
  "getSessionStatus sid s = None \<Longrightarrow> no_creation sid s is \<Longrightarrow>
   getSessionStatus sid (run s is) = None"
  by (induction "is" arbitrary: s) (simp_all add: status_stays_None_step)

lemma status_None_keys: "getSessionStatus sid s = None \<longleftrightarrow> sid \<notin> fst ` set (activeSessions s)"
  by (simp add: getSessionStatus_def map_of_eq_None_iff)

lemma split_path_no_slash: "CHR ''/'' \<notin> set xs \<Longrightarrow> split_path xs = [xs]"
  by (induction xs) auto

lemma normalize_segs_snoc:
  "g \<noteq> [] \<Longrightarrow> g \<noteq> ''.'' \<Longrightarrow> g \<noteq> ''..'' \<Longrightarrow>
   normalize_segs acc (gs @ [g]) = normalize_segs acc gs @ [g]"
  by (induction gs arbitrary: acc) auto

lemma sessionId_is_name:
  "mk_sessionId uid name \<noteq> [] \<and> mk_sessionId uid name \<noteq> ''.'' \<and> mk_sessionId uid name \<noteq> ''..''"
proof -
  have "CHR ''-'' \<in> set (mk_sessionId uid name)" by (simp add: mk_sessionId_def)
  then show ?thesis by auto
qed

lemma authDir_plain:
  assumes "CHR ''/'' \<notin> set (mk_sessionId uid name)"
  shows "authDir wd (mk_sessionId uid name) = path_join [wd, ''auth_sessions''] @ [mk_sessionId uid name]"
proof -
  let ?sid = "mk_sessionId uid name"
  have n: "?sid \<noteq> []" "?sid \<noteq> ''.''" "?sid \<noteq> ''..''"
    using sessionId_is_name [of uid name] by simp_all
  have "concat (map split_path (filter (\<lambda>a. a \<noteq> []) [wd, ''auth_sessions'', ?sid])) =
        concat (map split_path (filter (\<lambda>a. a \<noteq> []) [wd, ''auth_sessions''])) @ [?sid]"
    using n(1) by (simp add: split_path_no_slash [OF assms])
  then show ?thesis
    by (simp only: authDir_def path_join_def normalize_segs_snoc [OF n])
qed

lemma next_due_due: "next_due t xs = Some x \<Longrightarrow> fst x \<le> t"
  by (induction xs arbitrary: x) (auto split: option.splits if_splits)

lemma now_on_qr [simp]: "now (on_qr c u s) = now s"
  by (simp add: on_qr_def resolve_def split: option.splits)

lemma awaiting_qr_fire:
  assumes "awaiting_qr c D t s" and "x \<in> set (timers s)" and "fst x \<le> t"
  shows "awaiting_qr c D t (fire (snd x) (s\<lparr>timers := remove1 x (timers s)\<rparr>))"
proof -
  let ?s1 = "s\<lparr>timers := remove1 x (timers s)\<rparr>"
  let ?s' = "fire (snd x) ?s1"
  have tm: "timers ?s' = remove1 x (timers s)" by (simp add: timers_fire)
  have c: "c < length (calls s)" "phase (calls s ! c) = Running"
    "\<not> qrCodeGenerated (calls s ! c)"
    using assms(1) by (simp_all add: awaiting_qr_def)
  have u: "d = D" if "(d, QrTimeout c) \<in> set (timers ?s')" for d
  proof -
    from that have "(d, QrTimeout c) \<in> set (timers s)"
      unfolding tm using set_remove1_subset [of x "timers s"] by blast
    with assms(1) show ?thesis by (simp add: awaiting_qr_def)
  qed
  have k: "c < length (calls ?s') \<and> phase (calls ?s' ! c) = Running \<and>
      \<not> qrCodeGenerated (calls ?s' ! c)"
  proof (cases "snd x")
    case (QrTimeout c')
    with c show ?thesis by (simp add: reject_def nth_list_update)
  next
    case (Reconnect n v)
    with c show ?thesis by (simp add: createWhatsAppBot_begin_def Let_def nth_append)
  qed
  have r: "(D, QrTimeout c) \<in> set (timers ?s') \<and> result (calls ?s' ! c) = Pending \<or>
       result (calls ?s' ! c) = Rejected ''Failed to generate QR code'' \<and> D \<le> t"
  proof (cases "x = (D, QrTimeout c)")
    case True
    from assms(1) have "result (calls s ! c) = Pending \<or>
        result (calls s ! c) = Rejected ''Failed to generate QR code''"
      unfolding awaiting_qr_def by blast
    then have "settle (Rejected ''Failed to generate QR code'') (result (calls s ! c)) =
        Rejected ''Failed to generate QR code''"
      by (rule disjE) simp_all
    moreover have "snd x = QrTimeout c" "fst x = D" using True by simp_all
    ultimately have "result (calls ?s' ! c) = Rejected ''Failed to generate QR code''"
      using c by (simp add: reject_def)
    with assms(3) \<open>fst x = D\<close> show ?thesis by simp
  next
    case False
    then have "(D, QrTimeout c) \<noteq> x" by (rule not_sym)
    then have m: "(D, QrTimeout c) \<in> set (remove1 x (timers s)) \<longleftrightarrow>
        (D, QrTimeout c) \<in> set (timers s)"
      by (rule in_set_remove1)
    have "snd x \<noteq> QrTimeout c"
    proof
      assume "snd x = QrTimeout c"
      then have e: "x = (fst x, QrTimeout c)" by (cases x) simp
      with assms(2) have "(fst x, QrTimeout c) \<in> set (timers s)" by simp
      with assms(1) have "fst x = D" unfolding awaiting_qr_def by blast
      with e False show False by simp
    qed
    then have "calls ?s' ! c = calls s ! c"
      using c(1)
      by (cases "snd x") (simp_all add: reject_def createWhatsAppBot_begin_def Let_def nth_append)
    moreover from assms(1) have "(D, QrTimeout c) \<in> set (timers s) \<and> result (calls s ! c) = Pending \<or>
       result (calls s ! c) = Rejected ''Failed to generate QR code'' \<and> D \<le> t"
      unfolding awaiting_qr_def by blast
    ultimately show ?thesis unfolding tm m by simp
  qed
  from k u r show ?thesis unfolding awaiting_qr_def by blast
qed

lemma awaiting_qr_run_until:
  "awaiting_qr c D t s \<Longrightarrow> awaiting_qr c D t (run_until t s)"
proof (induction t s rule: run_until.induct)
  case (1 t s)
  show ?case
  proof (cases "next_due t (timers s)")
    case None
    with "1.prems" show ?thesis by (simp add: run_until.simps [of t s])
  next
    case (Some x)
    from awaiting_qr_fire [OF "1.prems" next_due_mem [OF Some] next_due_due [OF Some]]
      "1.IH" [OF Some]
    show ?thesis using Some by (simp add: run_until.simps [of t s])
  qed
qed

lemma awaiting_qr_clock:
  "awaiting_qr c D t (s\<lparr>now := t'\<rparr>) = awaiting_qr c D t s"
  by (simp add: awaiting_qr_def)

lemma awaiting_qr_mono: "awaiting_qr c D t s \<Longrightarrow> t \<le> t' \<Longrightarrow> awaiting_qr c D t' s"
  by (auto simp: awaiting_qr_def)

lemma awaiting_qr_step:
  assumes "awaiting_qr c D (now s) s" and "\<not> artifact_for c i"
  shows "awaiting_qr c D (now (step s i)) (step s i)"
proof (cases i)
  case (Create n u)
  with assms(1) show ?thesis
    by (auto simp: awaiting_qr_def createWhatsAppBot_begin_def Let_def nth_append)
next
  case (AuthFailed c' e)
  with assms(1) show ?thesis
    by (auto simp: awaiting_qr_def createWhatsAppBot_auth_failed_def reject_def nth_list_update)
next
  case (AuthLoaded c' sock)
  with assms(1) show ?thesis
    by (cases sock)
       (auto simp: awaiting_qr_def createWhatsAppBot_resume_def reject_def Let_def nth_list_update)
next
  case (ConnectionUpdate c' u)
  show ?thesis
  proof (cases "c' = c")
    case True
    with ConnectionUpdate assms(2) have "on_qr c u s = s"
      by (auto simp: on_qr_def split: option.splits)
    with True ConnectionUpdate assms(1) show ?thesis
      by (auto simp: awaiting_qr_def on_connection_update_def on_connection_def Let_def
            split: option.splits)
  next
    case False
    have "calls (on_qr c' u s) ! c = calls s ! c" "length (calls (on_qr c' u s)) = length (calls s)"
      using False by (simp_all add: on_qr_def resolve_def split: option.splits)
    with False ConnectionUpdate assms(1) show ?thesis
      by (auto simp: awaiting_qr_def on_connection_update_def on_connection_def Let_def
            split: option.splits)
  qed
next
  case (Disconnect sid)
  with assms(1) show ?thesis
    by (auto simp: awaiting_qr_def disconnectBot_def split: option.splits)
next
  case (Advance d)
  from assms(1) have "awaiting_qr c D (now s + d) s"
    by (rule awaiting_qr_mono) simp
  then have "awaiting_qr c D (now s + d) (run_until (now s + d) s)"
    by (rule awaiting_qr_run_until)
  with Advance show ?thesis by (simp add: advance_def awaiting_qr_clock)
qed

lemma awaiting_qr_run:
  "awaiting_qr c D (now s) s \<Longrightarrow> \<forall>i \<in> set is. \<not> artifact_for c i \<Longrightarrow>
   awaiting_qr c D (now (run s is)) (run s is)"
  by (induction "is" arbitrary: s) (simp_all add: awaiting_qr_step)

lemma awaiting_qr_start:
  assumes "state_ok s" and "c < length (calls s)" and "phase (calls s ! c) = AwaitingAuth"
  shows "awaiting_qr c (now s + 10000) (now s) (step s (AuthLoaded c None))"
proof -
  let ?s' = "step s (AuthLoaded c None)"
  from assms(1) have tc: "timers_calls s" and co: "calls_ok s"
    by (simp_all add: state_ok_def)
  from co assms(2,3) have p: "result (calls s ! c) = Pending" "\<not> qrCodeGenerated (calls s ! c)"
    by (simp_all add: calls_ok_def)
  have nt: "(d, QrTimeout c) \<notin> set (timers s)" for d
  proof
    assume "(d, QrTimeout c) \<in> set (timers s)"
    with tc have "phase (calls s ! c) = Running"
      unfolding timers_calls_def by fastforce
    with assms(3) show False by simp
  qed
  have tm: "timers ?s' = timers s @ [(now s + 10000, QrTimeout c)]"
    and cl: "calls ?s' = (calls s)[c := (calls s ! c)\<lparr>phase := Running\<rparr>]"
    using assms(2,3) by (simp_all add: createWhatsAppBot_resume_def Let_def)
  have k: "c < length (calls ?s')" "phase (calls ?s' ! c) = Running"
    "\<not> qrCodeGenerated (calls ?s' ! c)" "result (calls ?s' ! c) = Pending"
    unfolding cl using assms(2) p by simp_all
  have u: "d = now s + 10000" if "(d, QrTimeout c) \<in> set (timers ?s')" for d
    using that nt [of d] unfolding tm by simp
  have m: "(now s + 10000, QrTimeout c) \<in> set (timers ?s')"
    unfolding tm by simp
  from k u m show ?thesis unfolding awaiting_qr_def by blast
qed

lemma settled_stays:
  "c < length (calls s) \<Longrightarrow> result (calls s ! c) \<noteq> Pending \<Longrightarrow>
   result (calls (run s is) ! c) = result (calls s ! c)"
  using run_later [of c s "is"] by (simp add: later_def)

lemma timers_calls_fire:
  assumes "timers_calls s" and "x \<in> set (timers s)"
  shows "timers_calls (fire (snd x) (s\<lparr>timers := remove1 x (timers s)\<rparr>))"
proof (rule timers_calls_later [OF assms(1)])
  let ?s1 = "s\<lparr>timers := remove1 x (timers s)\<rparr>"
  show "c < length (calls (fire (snd x) ?s1)) \<and> later (calls s ! c) (calls (fire (snd x) ?s1) ! c)"
    if "c < length (calls s)" for c
    using fire_later [of c ?s1 "snd x"] that by simp
  show "set (timers (fire (snd x) ?s1)) \<subseteq> set (timers s)"
    by (simp add: timers_fire set_remove1_subset)
qed

lemma fire_keeps_awaiting:
  assumes "timers_calls s" and "x \<in> set (timers s)"
    and "c < length (calls s)" and "phase (calls s ! c) = AwaitingAuth"
  shows "calls (fire (snd x) (s\<lparr>timers := remove1 x (timers s)\<rparr>)) ! c = calls s ! c"
proof (cases "snd x")
  case (QrTimeout c')
  with assms(1,2) have "phase (calls s ! c') = Running"
    unfolding timers_calls_def by blast
  with assms(4) have "c' \<noteq> c" by auto
  with QrTimeout show ?thesis by (simp add: reject_def)
next
  case (Reconnect n v)
  with assms(3) show ?thesis
    by (simp add: createWhatsAppBot_begin_def Let_def nth_append)
qed

lemma run_until_keeps_awaiting:
  "timers_calls s \<Longrightarrow> c < length (calls s) \<Longrightarrow> phase (calls s ! c) = AwaitingAuth \<Longrightarrow>
   calls (run_until t s) ! c = calls s ! c"
proof (induction t s rule: run_until.induct)
  case (1 t s)
  show ?case
  proof (cases "next_due t (timers s)")
    case None
    then show ?thesis by (simp add: run_until.simps [of t s])
  next
    case (Some x)
    let ?s' = "fire (snd x) (s\<lparr>timers := remove1 x (timers s)\<rparr>)"
    have x: "x \<in> set (timers s)" using Some by (rule next_due_mem)
    have e: "calls ?s' ! c = calls s ! c"
      using "1.prems"(1) x "1.prems"(2,3) by (rule fire_keeps_awaiting)
    have l: "c < length (calls ?s')"
      using fire_later [of c "s\<lparr>timers := remove1 x (timers s)\<rparr>" "snd x"] "1.prems"(2) by simp
    have "timers_calls ?s'" using "1.prems"(1) x by (rule timers_calls_fire)
    from "1.IH" [OF Some this l] e "1.prems"(3)
    have "calls (run_until t ?s') ! c = calls s ! c" by simp
    then show ?thesis using Some by (simp add: run_until.simps [of t s])
  qed
qed

lemma mkdir_each_mono: "ds \<subseteq> snd (mkdir_each fs qs ds)"
proof (induction qs arbitrary: ds)
  case Nil
  show ?case by simp
next
  case (Cons q qs)
  from Cons [of ds] Cons [of "insert q ds"] show ?case
    by (auto split: option.splits)
qed

lemma mkdir_each_upper: "snd (mkdir_each fs qs ds) \<subseteq> ds \<union> set qs"
  by (induction qs arbitrary: ds) (auto split: option.splits)

lemma mkdir_each_made:
  "fst (mkdir_each fs qs ds) = None \<Longrightarrow> snd (mkdir_each fs qs ds) = ds \<union> set qs"
  by (induction qs arbitrary: ds) (auto split: option.splits if_splits)

lemma mkdir_each_allowed:
  "\<forall>q \<in> set qs. q \<notin> ds \<longrightarrow> fs q = None \<Longrightarrow> fst (mkdir_each fs qs ds) = None"
proof (induction qs arbitrary: ds)
  case Nil
  show ?case by simp
next
  case (Cons q qs)
  from Cons.prems have "\<forall>r \<in> set qs. r \<notin> ds \<longrightarrow> fs r = None"
    and "\<forall>r \<in> set qs. r \<notin> insert q ds \<longrightarrow> fs r = None"
    by auto
  with Cons.IH [of ds] Cons.IH [of "insert q ds"] Cons.prems show ?case
    by (auto split: option.splits)
qed

lemma mkdir_each_refused:
  "fst (mkdir_each fs qs ds) = Some e \<Longrightarrow> \<exists>q \<in> set qs. q \<notin> ds \<and> fs q = Some e"
  by (induction qs arbitrary: ds) (auto split: option.splits if_splits)

lemma mkdir_each_last_missing:
  "fst (mkdir_each fs qs ds) = Some e \<Longrightarrow> distinct qs \<Longrightarrow> last qs \<notin> ds \<Longrightarrow>
   last qs \<notin> snd (mkdir_each fs qs ds)"
proof (induction qs arbitrary: ds)
  case Nil
  then show ?case by simp
next
  case (Cons q qs)
  from Cons.prems(1) have ne: "qs \<noteq> [] \<or> (q \<notin> ds \<and> fs q = Some e)"
    by (cases qs) (auto split: option.splits if_splits)
  show ?case
  proof (cases "q \<notin> ds \<and> fs q \<noteq> None")
    case True
    with Cons.prems show ?thesis by (auto split: option.splits)
  next
    case False
    with ne have qs: "qs \<noteq> []" by auto
    then have l: "last (q # qs) = last qs" by simp
    from qs Cons.prems(2) have "last qs \<noteq> q" by auto
    with False Cons.prems l Cons.IH [of ds] Cons.IH [of "insert q ds"] show ?thesis
      by (auto split: option.splits if_splits)
  qed
qed

lemma tl_prefixes:
  "p \<noteq> [] \<Longrightarrow> tl (prefixes p) \<noteq> [] \<and> last (tl (prefixes p)) = p"
  by (cases p) (simp_all add: last_map)

lemma distinct_tl_prefixes: "distinct (tl (prefixes p))"
  by (simp add: distinct_tl distinct_prefixes)

lemma ensure_authDir_mono: "dirs s \<subseteq> snd (ensure_authDir d s)"
  by (simp add: ensure_authDir_def mkdirSync_recursive_def mkdir_each_mono)

lemma ensure_authDir_exists:
  assumes "fst (ensure_authDir d s) = None"
  shows "existsSync d (snd (ensure_authDir d s))"
proof (cases "existsSync d (dirs s)")
  case True
  then show ?thesis by (simp add: ensure_authDir_def)
next
  case False
  then have d: "d \<noteq> []" by (simp add: existsSync_def)
  from False assms have "fst (mkdir_each (mkdir_error s) (tl (prefixes d)) (dirs s)) = None"
    by (simp add: ensure_authDir_def mkdirSync_recursive_def)
  then have "snd (ensure_authDir d s) = dirs s \<union> set (tl (prefixes d))"
    using False by (simp add: ensure_authDir_def mkdirSync_recursive_def mkdir_each_made)
  moreover have "d \<in> set (tl (prefixes d))"
    using tl_prefixes [OF d] last_in_set [of "tl (prefixes d)"] by auto
  ultimately show ?thesis by (simp add: existsSync_def)
qed

lemma existsSync_mono: "existsSync d ds \<Longrightarrow> ds \<subseteq> ds' \<Longrightarrow> existsSync d ds'"
  by (auto simp: existsSync_def)

lemma cwd_begin [simp]: "cwd (createWhatsAppBot_begin n u s) = cwd s"
  by (simp add: createWhatsAppBot_begin_def Let_def)

lemma dirs_begin_mono: "dirs s \<subseteq> dirs (createWhatsAppBot_begin n u s)"
  by (simp add: createWhatsAppBot_begin_def Let_def ensure_authDir_mono)

lemma fs_fire: "cwd (fire a s) = cwd s \<and> dirs s \<subseteq> dirs (fire a s)"
  by (cases a) (simp_all add: reject_def dirs_begin_mono)

lemma dirs_ok_begin:
  assumes "dirs_ok s"
  shows "dirs_ok (createWhatsAppBot_begin n u s)"
  unfolding dirs_ok_def
proof (intro allI impI)
  let ?s' = "createWhatsAppBot_begin n u s"
  fix c
  assume c: "c < length (calls ?s')" and p: "phase (calls ?s' ! c) \<noteq> Aborted"
  show "existsSync (authDir (cwd ?s') (call_sessionId (calls ?s' ! c))) (dirs ?s')"
  proof (cases "c < length (calls s)")
    case True
    with p have "phase (calls s ! c) \<noteq> Aborted" "calls ?s' ! c = calls s ! c"
      by (simp_all add: begin_later)
    with assms True have "existsSync (authDir (cwd s) (call_sessionId (calls ?s' ! c))) (dirs s)"
      by (simp add: dirs_ok_def)
    then show ?thesis using dirs_begin_mono [of s n u] by (simp add: existsSync_mono)
  next
    case False
    with c have e: "c = length (calls s)"
      by (simp add: createWhatsAppBot_begin_def Let_def)
    with p have "fst (ensure_authDir (authDir (cwd s) (mk_sessionId u n)) s) = None"
      by (simp add: createWhatsAppBot_begin_def Let_def split: option.splits)
    from ensure_authDir_exists [OF this] e show ?thesis
      by (simp add: createWhatsAppBot_begin_def Let_def call_sessionId_def)
  qed
qed

lemma dirs_ok_later:
  assumes "dirs_ok s" and "cwd s' = cwd s" and "dirs s' = dirs s"
    and "length (calls s') = length (calls s)"
    and "\<And>c. c < length (calls s) \<Longrightarrow> later (calls s ! c) (calls s' ! c)"
  shows "dirs_ok s'"
  unfolding dirs_ok_def
proof (intro allI impI)
  fix c
  assume c: "c < length (calls s')" and p: "phase (calls s' ! c) \<noteq> Aborted"
  from c assms(4) have c': "c < length (calls s)" by simp
  from assms(5) [OF c'] p have "phase (calls s ! c) \<noteq> Aborted"
    by (auto simp: later_def)
  with assms(1) c' have "existsSync (authDir (cwd s) (call_sessionId (calls s ! c))) (dirs s)"
    by (simp add: dirs_ok_def)
  with assms(2,3) later_sessionId [OF assms(5) [OF c']]
  show "existsSync (authDir (cwd s') (call_sessionId (calls s' ! c))) (dirs s')"
    by simp
qed

lemma dirs_ok_fire: "dirs_ok s \<Longrightarrow> dirs_ok (fire a s)"
proof (cases a)
  case (QrTimeout c)
  assume "dirs_ok s"
  then have "dirs_ok (reject c ''Failed to generate QR code'' s)"
    by (rule dirs_ok_later) (simp_all add: reject_later, simp_all add: reject_def)
  with \<open>dirs_ok s\<close> QrTimeout show ?thesis by simp
next
  case (Reconnect n u)
  assume "dirs_ok s"
  with Reconnect show ?thesis by (simp add: dirs_ok_begin)
qed

lemma dirs_ok_timers [simp]: "dirs_ok (s\<lparr>timers := ts\<rparr>) = dirs_ok s"
  by (simp add: dirs_ok_def)

lemma dirs_ok_clock [simp]: "dirs_ok (s\<lparr>now := t\<rparr>) = dirs_ok s"
  by (simp add: dirs_ok_def)

lemma dirs_ok_run_until: "dirs_ok s \<Longrightarrow> dirs_ok (run_until t s)"
proof (induction t s rule: run_until.induct)
  case (1 t s)
  show ?case
  proof (cases "next_due t (timers s)")
    case None
    with "1.prems" show ?thesis by (simp add: run_until.simps [of t s])
  next
    case (Some x)
    have "dirs_ok (fire (snd x) (s\<lparr>timers := remove1 x (timers s)\<rparr>))"
      using "1.prems" by (simp add: dirs_ok_fire)
    from "1.IH" [OF Some this] show ?thesis
      using Some by (simp add: run_until.simps [of t s])
  qed
qed

lemma dirs_ok_step: "dirs_ok s \<Longrightarrow> dirs_ok (step s i)"
proof (cases i)
  case (Create n u)
  assume "dirs_ok s"
  with Create show ?thesis by (simp add: dirs_ok_begin)
next
  case (AuthFailed c e)
  assume "dirs_ok s"
  then have "dirs_ok (createWhatsAppBot_auth_failed c e s)"
    by (rule dirs_ok_later)
       (simp_all add: auth_failed_later, simp_all add: createWhatsAppBot_auth_failed_def reject_def)
  with AuthFailed show ?thesis by simp
next
  case (AuthLoaded c sock)
  assume "dirs_ok s"
  then have "dirs_ok (createWhatsAppBot_resume c sock s)"
    by (rule dirs_ok_later)
       (simp_all add: resume_later,
        simp_all add: createWhatsAppBot_resume_def reject_def Let_def split: option.splits)
  with AuthLoaded show ?thesis by simp
next
  case (ConnectionUpdate c u)
  assume "dirs_ok s"
  then have "dirs_ok (on_connection_update c u s)"
    by (rule dirs_ok_later)
       (simp_all add: step_later [of _ s "ConnectionUpdate c u", simplified],
        simp_all add: on_connection_update_def on_connection_def on_qr_def resolve_def Let_def
          split: option.splits)
  with ConnectionUpdate show ?thesis by simp
next
  case (Disconnect sid)
  assume "dirs_ok s"
  then have "dirs_ok (snd (disconnectBot sid s))"
    by (rule dirs_ok_later) (simp_all add: disconnectBot_def split: option.splits)
  with Disconnect show ?thesis by simp
next
  case (Advance d)
  assume "dirs_ok s"
  with Advance show ?thesis by (simp add: advance_def dirs_ok_run_until)
qed

lemma dirs_ok_run: "dirs_ok s \<Longrightarrow> dirs_ok (run s is)"
  by (induction "is" arbitrary: s) (simp_all add: dirs_ok_step)

lemma dirs_ok_reachable: "dirs_ok (run (init wd ds fs) is)"
  by (rule dirs_ok_run) (simp add: dirs_ok_def init_def)

lemma length_calls_fire: "length (calls s) \<le> length (calls (fire a s))"
  by (cases a) (simp_all add: reject_def createWhatsAppBot_begin_def Let_def)

lemma run_until_fires_reconnect:
  "timers_calls s \<Longrightarrow> (d, Reconnect n v) \<in> set (timers s) \<Longrightarrow> d \<le> t \<Longrightarrow>
   existsSync (authDir (cwd s) (mk_sessionId v n)) (dirs s) \<Longrightarrow>
   \<exists>c'. length (calls s) \<le> c' \<and> c' < length (calls (run_until t s)) \<and>
        calls (run_until t s) ! c' = fresh_call n v"
proof (induction t s rule: run_until.induct)
  case (1 t s)
  show ?case
  proof (cases "next_due t (timers s)")
    case None
    from next_due_None [OF None "1.prems"(2)] "1.prems"(3) show ?thesis by simp
  next
    case (Some x)
    let ?s1 = "s\<lparr>timers := remove1 x (timers s)\<rparr>"
    let ?s' = "fire (snd x) ?s1"
    have x: "x \<in> set (timers s)" using Some by (rule next_due_mem)
    have tc: "timers_calls ?s'" using "1.prems"(1) x by (rule timers_calls_fire)
    have u: "run_until t s = run_until t ?s'"
      using Some by (simp add: run_until.simps [of t s])
    show ?thesis
    proof (cases "x = (d, Reconnect n v)")
      case True
      with "1.prems"(4) have cl: "calls ?s' = calls s @ [fresh_call n v]"
        by (simp add: createWhatsAppBot_begin_def Let_def fresh_call_def ensure_authDir_def)
      then have l: "length (calls s) < length (calls ?s')"
        and f: "calls ?s' ! length (calls s) = fresh_call n v"
        by simp_all
      from f have p: "phase (calls ?s' ! length (calls s)) = AwaitingAuth"
        by (simp add: fresh_call_def)
      from run_until_keeps_awaiting [OF tc l p, of t] f
      have "calls (run_until t ?s') ! length (calls s) = fresh_call n v" by simp
      moreover from run_until_later [OF l, of t]
      have "length (calls s) < length (calls (run_until t ?s'))" by simp
      ultimately show ?thesis unfolding u by blast
    next
      case False
      then have m: "(d, Reconnect n v) \<in> set (timers ?s')"
        using "1.prems"(2) by (simp add: timers_fire)
      have e: "existsSync (authDir (cwd ?s') (mk_sessionId v n)) (dirs ?s')"
        using "1.prems"(4) fs_fire [of "snd x" ?s1] by (auto intro: existsSync_mono)
      from "1.IH" [OF Some tc m "1.prems"(3) e]
      obtain c' where c': "length (calls ?s') \<le> c'" "c' < length (calls (run_until t ?s'))"
        "calls (run_until t ?s') ! c' = fresh_call n v"
        by blast
      have "length (calls s) \<le> length (calls ?s')"
        using length_calls_fire [of ?s1 "snd x"] by simp
      with c' show ?thesis unfolding u by (meson le_trans)
    qed
  qed
qed

lemma run_until_keeps_later: "x \<in> set (timers s) \<Longrightarrow> t < fst x \<Longrightarrow> x \<in> set (timers (run_until t s))"
proof (induction t s rule: run_until.induct)
  case (1 t s)
  show ?case
  proof (cases "next_due t (timers s)")
    case None
    with "1.prems" show ?thesis by (simp add: run_until.simps [of t s])
  next
    case (Some y)
    from next_due_due [OF Some] "1.prems"(2) have "x \<noteq> y" by auto
    with "1.prems"(1) have "x \<in> set (timers (fire (snd y) (s\<lparr>timers := remove1 y (timers s)\<rparr>)))"
      by (simp add: timers_fire)
    from "1.IH" [OF Some this "1.prems"(2)] show ?thesis
      using Some by (simp add: run_until.simps [of t s])
  qed
qed

lemma recreated_session_opens:
  assumes "c < length (calls s)" and "calls s ! c = fresh_call n v"
    and "connection u = Some Open"
  shows "getSessionStatus (mk_sessionId v n) (step s (AuthLoaded c None)) =
           Some \<lparr>sessionId = mk_sessionId v n, socket = c, qrCode = None, isConnected = False,
                 userId = v\<rparr> \<and>
         getSessionStatus (mk_sessionId v n)
            (step (step s (AuthLoaded c None)) (ConnectionUpdate c u)) =
           Some \<lparr>sessionId = mk_sessionId v n, socket = c, qrCode = None, isConnected = True,
                 userId = v\<rparr>"
proof -
  let ?s3 = "step s (AuthLoaded c None)"
  have a: "getSessionStatus (mk_sessionId v n) ?s3 =
      Some \<lparr>sessionId = mk_sessionId v n, socket = c, qrCode = None, isConnected = False,
                 userId = v\<rparr>"
    using assms(1,2)
    by (simp add: getSessionStatus_def createWhatsAppBot_resume_def Let_def update_conv'
          fresh_call_def call_sessionId_def)
  have k: "c < length (calls ?s3)" "phase (calls ?s3 ! c) = Running"
    "call_sessionId (calls ?s3 ! c) = mk_sessionId v n"
    using assms(1,2)
    by (simp_all add: createWhatsAppBot_resume_def Let_def fresh_call_def call_sessionId_def)
  have "call_sessionId (calls (on_qr c u ?s3) ! c) = mk_sessionId v n"
    using on_qr_later [OF k(1), of c u] k(3) by (auto dest: later_sessionId)
  with a k(1,2) assms(3)
  have "getSessionStatus (mk_sessionId v n) (step ?s3 (ConnectionUpdate c u)) =
      Some \<lparr>sessionId = mk_sessionId v n, socket = c, qrCode = None, isConnected = True,
                 userId = v\<rparr>"
    by (simp add: getSessionStatus_def on_connection_update_def on_connection_def Let_def
          update_conv' del: step.simps(3))
  with a show ?thesis by simp
qed

section \<open>Properties of the session lifecycle\<close>

text \<open>
  C1. The pairing artifact is resolved to the caller once per call. Let the executor of
  call \<open>c\<close> run in a reachable state (\<open>s1\<close>), and let any turns follow in which the socket
  of \<open>c\<close> emits no artifact and the clock stays below the 10 seconds (\<open>s2\<close>). Then the
  promise is still pending, and when the socket now emits its first artifact \<open>q\<close> the
  promise is fulfilled with \<^verbatim>\<open>{sessionId, qrCode: q}\<close> and keeps this value whatever
  follows, later artifacts and the timeout included.
\<close>

theorem first_artifact_resolves_once:
  assumes "s0 = run (init wd ds fs) ins0"
    and "c < length (calls s0)" and "phase (calls s0 ! c) = AwaitingAuth"
    and "s1 = step s0 (AuthLoaded c None)"
    and "\<forall>i \<in> set ins. \<not> artifact_for c i"
    and "s2 = run s1 ins"
    and "now s2 < now s1 + 10000"
    and "qr u = Some q" and "q \<noteq> []"
  shows "result (calls s2 ! c) = Pending \<and>
         (\<forall>more. result (calls (run s2 (ConnectionUpdate c u # more)) ! c) =
            Fulfilled (call_sessionId (calls s0 ! c), q))"
proof -
  have "state_ok s0" using assms(1) by (simp add: state_ok_reachable)
  then have "awaiting_qr c (now s0 + 10000) (now s0) s1"
    unfolding assms(4) using assms(2,3) by (rule awaiting_qr_start)
  moreover have n: "now s1 = now s0" unfolding assms(4) by simp
  ultimately have "awaiting_qr c (now s1 + 10000) (now s1) s1" by simp
  then have a: "awaiting_qr c (now s1 + 10000) (now s2) s2"
    unfolding assms(6) using assms(5) by (rule awaiting_qr_run)
  with assms(7) have p: "result (calls s2 ! c) = Pending"
    and k: "c < length (calls s2)" "phase (calls s2 ! c) = Running"
      "\<not> qrCodeGenerated (calls s2 ! c)"
    by (auto simp: awaiting_qr_def)
  have "later (calls s0 ! c) (calls s1 ! c)"
    unfolding assms(4) using step_later [OF assms(2)] by blast
  moreover have "later (calls s1 ! c) (calls s2 ! c)"
    unfolding assms(6) using run_later [of c s1 ins] step_later [OF assms(2), of "AuthLoaded c None"]
    by (simp add: assms(4))
  ultimately have sid: "call_sessionId (calls s2 ! c) = call_sessionId (calls s0 ! c)"
    by (simp add: later_sessionId)
  let ?s3 = "step s2 (ConnectionUpdate c u)"
  have r: "c < length (calls ?s3) \<and>
      result (calls ?s3 ! c) = Fulfilled (call_sessionId (calls s0 ! c), q)"
    using p k sid assms(8,9)
    by (simp add: on_connection_update_def on_qr_def resolve_def)
  then have "result (calls (run ?s3 more) ! c) = Fulfilled (call_sessionId (calls s0 ! c), q)" for more
    using settled_stays [of c ?s3 more] by simp
  with p show ?thesis by simp
qed

theorem first_artifact_resolves_once_witness:
  "now (run started_session [Advance 2000]) < now started_session + 10000 \<and>
   result (calls (run started_session [Advance 2000]) ! 0) = Pending \<and>
   result (calls (run (run started_session [Advance 2000])
      [ConnectionUpdate 0 (qr_update ''QR1'')]) ! 0) = Fulfilled (''user-1-mybot'', ''QR1'') \<and>
   result (calls (run (run started_session [Advance 2000])
      [ConnectionUpdate 0 (qr_update ''QR1''), Advance 2000,
       ConnectionUpdate 0 (qr_update ''QR2''), Advance 7000]) ! 0) =
     Fulfilled (''user-1-mybot'', ''QR1'')"
proof -
  let ?s0 = "run (init ''/app'' {} (\<lambda>p. None)) [Create ''mybot'' ''user-1'']"
  have h: "0 < length (calls ?s0)" "phase (calls ?s0 ! 0) = AwaitingAuth"
    "started_session = step ?s0 (AuthLoaded 0 None)"
    "\<forall>i \<in> set [Advance 2000]. \<not> artifact_for 0 i"
    by (simp_all add: model_defs)
  have t: "now (run started_session [Advance 2000]) < now started_session + 10000"
    by (simp add: model_defs)
  have q: "qr (qr_update ''QR1'') = Some ''QR1''" "''QR1'' \<noteq> []"
    by (simp_all add: qr_update_def)
  have sid: "call_sessionId (calls ?s0 ! 0) = ''user-1-mybot''"
    by (simp add: model_defs)
  note r = first_artifact_resolves_once [OF refl h refl t q]
  from r have r1: "result (calls (run started_session [Advance 2000]) ! 0) = Pending"
    by blast
  from r have "\<And>more. result (calls (run (run started_session [Advance 2000])
      (ConnectionUpdate 0 (qr_update ''QR1'') # more)) ! 0) =
      Fulfilled (call_sessionId (calls ?s0 ! 0), ''QR1'')"
    by blast
  then have r2: "\<And>more. result (calls (run (run started_session [Advance 2000])
      (ConnectionUpdate 0 (qr_update ''QR1'') # more)) ! 0) = Fulfilled (''user-1-mybot'', ''QR1'')"
    by (simp only: sid)
  from t r1 r2 [of "[]"]
    r2 [of "[Advance 2000, ConnectionUpdate 0 (qr_update ''QR2''), Advance 7000]"]
  show ?thesis by blast
qed

text \<open>
  C2. With no pairing artifact within 10 seconds the call fails. Let the executor of
  call \<open>c\<close> run in a reachable state (\<open>s1\<close>), and let turns follow in which the socket of
  \<open>c\<close> emits no artifact, until the clock has advanced by 10 seconds or more (\<open>s2\<close>).
  Then the promise, pending at \<open>s1\<close>, is rejected with the error
  \<^verbatim>\<open>Failed to generate QR code\<close>, and stays so whatever follows.
\<close>

theorem no_artifact_rejects_at_timeout:
  assumes "s0 = run (init wd ds fs) ins0"
    and "c < length (calls s0)" and "phase (calls s0 ! c) = AwaitingAuth"
    and "s1 = step s0 (AuthLoaded c None)"
    and "\<forall>i \<in> set ins. \<not> artifact_for c i"
    and "s2 = run s1 ins"
    and "now s1 + 10000 \<le> now s2"
  shows "result (calls s1 ! c) = Pending \<and>
         result (calls s2 ! c) = Rejected ''Failed to generate QR code'' \<and>
         (\<forall>more. result (calls (run s2 more) ! c) = Rejected ''Failed to generate QR code'')"
proof -
  have i0: "state_ok s0" using assms(1) by (simp add: state_ok_reachable)
  then have s: "awaiting_qr c (now s0 + 10000) (now s0) s1"
    unfolding assms(4) using assms(2,3) by (rule awaiting_qr_start)
  have n: "now s1 = now s0" unfolding assms(4) by simp
  from i0 have "timers_future s0" by (simp add: state_ok_def)
  with s have p1: "result (calls s1 ! c) = Pending"
    by (auto simp: awaiting_qr_def timers_future_def)
  from s n have "awaiting_qr c (now s1 + 10000) (now s1) s1" by simp
  then have a: "awaiting_qr c (now s1 + 10000) (now s2) s2"
    unfolding assms(6) using assms(5) by (rule awaiting_qr_run)
  have "state_ok s2" unfolding assms(6) assms(4) using i0 by (intro state_ok_run state_ok_step)
  then have "timers_future s2" by (simp add: state_ok_def)
  with assms(7) have "(now s1 + 10000, QrTimeout c) \<notin> set (timers s2)"
    by (force simp: timers_future_def)
  with a have r: "c < length (calls s2) \<and>
      result (calls s2 ! c) = Rejected ''Failed to generate QR code''"
    unfolding awaiting_qr_def by blast
  then have "result (calls (run s2 more) ! c) = Rejected ''Failed to generate QR code''" for more
    using settled_stays [of c s2 more] by simp
  with p1 r show ?thesis by simp
qed

theorem no_artifact_rejects_at_timeout_witness:
  "now started_session + 10000 \<le>
     now (run started_session [Advance 4000, ConnectionUpdate 0 open_update, Advance 6000]) \<and>
   result (calls started_session ! 0) = Pending \<and>
   result (calls (run started_session
      [Advance 4000, ConnectionUpdate 0 open_update, Advance 6000]) ! 0) =
     Rejected ''Failed to generate QR code'' \<and>
   result (calls (run (run started_session
      [Advance 4000, ConnectionUpdate 0 open_update, Advance 6000])
      [ConnectionUpdate 0 (qr_update ''QR1'')]) ! 0) = Rejected ''Failed to generate QR code''"
proof -
  let ?s0 = "run (init ''/app'' {} (\<lambda>p. None)) [Create ''mybot'' ''user-1'']"
  let ?ins = "[Advance 4000, ConnectionUpdate 0 open_update, Advance 6000]"
  have h: "0 < length (calls ?s0)" "phase (calls ?s0 ! 0) = AwaitingAuth"
    "started_session = step ?s0 (AuthLoaded 0 None)"
    "\<forall>i \<in> set ?ins. \<not> artifact_for 0 i"
    by (simp_all add: model_defs)
  have t: "now started_session + 10000 \<le> now (run started_session ?ins)"
    by (simp add: model_defs)
  note r = no_artifact_rejects_at_timeout [OF refl h refl t]
  from t r show ?thesis by blast
qed

text \<open>
  C3. A call that fails with the pairing timeout leaves the registry as it is, and an
  entry is there only with a connection handle that was opened. In a reachable state
  let the 10 second timer of call \<open>c\<close> be pending, with no artifact seen and the promise
  pending. Then \<^verbatim>\<open>makeWASocket\<close> has returned the handle of \<open>c\<close>; the timer's callback
  rejects the promise with the timeout error and does not touch the registry; the entry
  found afterwards under the session id of \<open>c\<close>, if any, holds a handle that
  \<^verbatim>\<open>makeWASocket\<close> returned. A call whose \<^verbatim>\<open>makeWASocket\<close> throws, or whose credential
  load fails, stores no entry and sets no timer.
\<close>

theorem pairing_timeout_leaves_registry:
  assumes "s = run (init wd ds fs) ins"
    and "(d, QrTimeout c) \<in> set (timers s)"
    and "\<not> qrCodeGenerated (calls s ! c)" and "result (calls s ! c) = Pending"
  shows "c < length (calls s) \<and> phase (calls s ! c) = Running \<and>
         result (calls (fire (QrTimeout c) s) ! c) = Rejected ''Failed to generate QR code'' \<and>
         activeSessions (fire (QrTimeout c) s) = activeSessions s \<and>
         (\<forall>b. getSessionStatus (call_sessionId (calls s ! c)) (fire (QrTimeout c) s) = Some b \<longrightarrow>
            socket b < length (calls s) \<and> phase (calls s ! socket b) = Running) \<and>
         (\<forall>c' e. activeSessions (step s (AuthLoaded c' (Some e))) = activeSessions s \<and>
            timers (step s (AuthLoaded c' (Some e))) = timers s) \<and>
         (\<forall>c' e. activeSessions (step s (AuthFailed c' e)) = activeSessions s \<and>
            timers (step s (AuthFailed c' e)) = timers s)"
proof -
  have i: "state_ok s" using assms(1) by (simp add: state_ok_reachable)
  then have "timers_calls s" by (simp add: state_ok_def)
  with assms(2) have r: "c < length (calls s) \<and> phase (calls s ! c) = Running"
    by (force simp: timers_calls_def)
  have e: "socket b < length (calls s) \<and> phase (calls s ! socket b) = Running"
    if "getSessionStatus sid (fire (QrTimeout c) s) = Some b" for sid b
  proof -
    from that have "(sid, b) \<in> set (activeSessions s)"
      by (simp add: getSessionStatus_def map_of_SomeD del: fire.simps)
    with i show ?thesis
      by (force simp: state_ok_def registry_ok_def list_all_iff entry_ok_def)
  qed
  have t: "timers (createWhatsAppBot_resume c' (Some e) s) = timers s" for c' e
    by (simp add: createWhatsAppBot_resume_def)
  from r assms(3,4)
  have f: "result (calls (fire (QrTimeout c) s) ! c) = Rejected ''Failed to generate QR code''"
    by (simp add: reject_def)
  from r e t f show ?thesis by (simp del: fire.simps)
qed

theorem pairing_timeout_leaves_registry_witness:
  "(10000, QrTimeout 0) \<in> set (timers unpaired_session) \<and>
   result (calls (fire (QrTimeout 0) unpaired_session) ! 0) = Rejected ''Failed to generate QR code'' \<and>
   phase (calls unpaired_session ! 0) = Running \<and>
   activeSessions (fire (QrTimeout 0) unpaired_session) = activeSessions unpaired_session \<and>
   getSessionStatus ''user-1-mybot'' (fire (QrTimeout 0) unpaired_session) =
     Some \<lparr>sessionId = ''user-1-mybot'', socket = 0, qrCode = None, isConnected = False,
           userId = ''user-1''\<rparr> \<and>
   activeSessions (run (init ''/app'' {} (\<lambda>p. None))
     [Create ''mybot'' ''user-1'', AuthLoaded 0 (Some ''connect failed''), Advance 10000]) = [] \<and>
   result (calls (run (init ''/app'' {} (\<lambda>p. None))
     [Create ''mybot'' ''user-1'', AuthLoaded 0 (Some ''connect failed''), Advance 10000]) ! 0) =
     Rejected ''connect failed''"
proof -
  have h: "(10000, QrTimeout 0) \<in> set (timers unpaired_session)"
    by (simp add: unpaired_session_def model_defs)
  have g: "getSessionStatus ''user-1-mybot'' (fire (QrTimeout 0) unpaired_session) =
     Some \<lparr>sessionId = ''user-1-mybot'', socket = 0, qrCode = None, isConnected = False,
           userId = ''user-1''\<rparr>"
    "result (calls (fire (QrTimeout 0) unpaired_session) ! 0) = Rejected ''Failed to generate QR code''"
    by (simp_all add: unpaired_session_def model_defs)
  have f: "activeSessions (run (init ''/app'' {} (\<lambda>p. None))
     [Create ''mybot'' ''user-1'', AuthLoaded 0 (Some ''connect failed''), Advance 10000]) = []"
    "result (calls (run (init ''/app'' {} (\<lambda>p. None))
     [Create ''mybot'' ''user-1'', AuthLoaded 0 (Some ''connect failed''), Advance 10000]) ! 0) =
     Rejected ''connect failed''"
    by (simp_all add: model_defs)
  have p: "\<not> qrCodeGenerated (calls unpaired_session ! 0)"
    "result (calls unpaired_session ! 0) = Pending"
    by (simp_all add: unpaired_session_def model_defs)
  note t = pairing_timeout_leaves_registry [OF unpaired_session_def h p]
  from t h g f show ?thesis by blast
qed

text \<open>
  C4 says that a close with a reason other than logout sets \<open>isConnected\<close> to false at
  once. The \<^verbatim>\<open>close\<close> branch of the handler writes no \<open>isConnected\<close>: only the \<^verbatim>\<open>open\<close>
  branch updates the stored status. For a session that was open, \<open>getSessionStatus\<close> right
  after a close with status code 428 still returns \<open>isConnected = True\<close>.
\<close>

theorem transient_close_keeps_isConnected:
  "getSessionStatus ''user-1-mybot'' (run (init ''/app'' {} (\<lambda>p. None))
     [Create ''mybot'' ''user-1'', AuthLoaded 0 None, ConnectionUpdate 0 open_update,
      ConnectionUpdate 0 (close_update (Some 428))]) =
   Some \<lparr>sessionId = ''user-1-mybot'', socket = 0, qrCode = None, isConnected = True,
         userId = ''user-1''\<rparr>"
  by (simp add: model_defs)

text \<open>
  C5. A close whose status code is \<^verbatim>\<open>DisconnectReason.loggedOut\<close>, handled on the socket
  of a call \<open>c\<close> in a reachable state, removes the session of \<open>c\<close> from the registry and
  sets no timer: afterwards \<open>getSessionStatus\<close> finds nothing under the session id, no
  entry of \<open>getActiveSessions\<close> has this session id, the pending timers are the same as
  before, and \<open>getSessionStatus\<close> keeps finding nothing through all turns in which no
  call stores a session with this id anew.
\<close>

theorem logout_close_removes_session:
  assumes "s = run (init wd ds fs) ins"
    and "c < length (calls s)" and "phase (calls s ! c) = Running"
    and "connection u = Some Close" and "statusCode u = Some DisconnectReason_loggedOut"
    and "sid = call_sessionId (calls s ! c)"
    and "s' = step s (ConnectionUpdate c u)"
  shows "getSessionStatus sid s' = None \<and>
         sid \<notin> fst ` set (activeSessions s') \<and>
         sid \<notin> sessionId ` set (getActiveSessions s') \<and>
         timers s' = timers s \<and>
         (\<forall>more. no_creation sid s' more \<longrightarrow> getSessionStatus sid (run s' more) = None)"
proof -
  have sid: "call_sessionId (calls (on_qr c u s) ! c) = sid"
    using on_qr_later [OF assms(2), of c u] assms(6) by (simp add: later_sessionId)
  have reg: "activeSessions s' = AList.delete sid (activeSessions s)"
    using assms(2-5,7) sid by (simp add: on_connection_update_def on_connection_def Let_def)
  then have n: "getSessionStatus sid s' = None"
    by (simp add: getSessionStatus_def delete_conv')
  then have k: "sid \<notin> fst ` set (activeSessions s')"
    by (simp add: status_None_keys)
  have "state_ok s" using assms(1) by (simp add: state_ok_reachable)
  then have "state_ok s'" unfolding assms(7) by (rule state_ok_step)
  then have "\<forall>e \<in> set (activeSessions s'). sessionId (snd e) = fst e"
    by (simp add: state_ok_def registry_ok_def list_all_iff entry_ok_def)
  with k have l: "sid \<notin> sessionId ` set (getActiveSessions s')"
    by (force simp: getActiveSessions_def)
  have t: "timers s' = timers s"
    using assms(2-5,7) by (simp add: on_connection_update_def on_connection_def Let_def)
  from n k l t status_stays_None [OF n] show ?thesis by blast
qed

theorem logout_close_removes_session_witness:
  "getSessionStatus ''user-1-mybot'' open_session =
     Some \<lparr>sessionId = ''user-1-mybot'', socket = 0, qrCode = None, isConnected = True,
           userId = ''user-1''\<rparr> \<and>
   getSessionStatus ''user-1-mybot'' (step open_session (ConnectionUpdate 0 logout_update)) = None \<and>
   getActiveSessions (step open_session (ConnectionUpdate 0 logout_update)) = [] \<and>
   timers (step open_session (ConnectionUpdate 0 logout_update)) = [(10000, QrTimeout 0)] \<and>
   getSessionStatus ''user-1-mybot''
     (run (step open_session (ConnectionUpdate 0 logout_update)) [Advance 60000]) = None"
proof -
  have h: "0 < length (calls open_session)" "phase (calls open_session ! 0) = Running"
    "connection logout_update = Some Close"
    "statusCode logout_update = Some DisconnectReason_loggedOut"
    "''user-1-mybot'' = call_sessionId (calls open_session ! 0)"
    by (simp_all add: open_session_def logout_update_def model_defs)
  have g: "getSessionStatus ''user-1-mybot'' open_session =
     Some \<lparr>sessionId = ''user-1-mybot'', socket = 0, qrCode = None, isConnected = True,
           userId = ''user-1''\<rparr>"
    "timers open_session = [(10000, QrTimeout 0)]"
    by (simp_all add: open_session_def model_defs)
  have a: "getActiveSessions (step open_session (ConnectionUpdate 0 logout_update)) = []"
    by (simp add: open_session_def logout_update_def model_defs)
  have m: "no_creation ''user-1-mybot'' (step open_session (ConnectionUpdate 0 logout_update))
      [Advance 60000]"
    by simp
  note t = logout_close_removes_session [OF open_session_def h refl]
  from t have t1: "getSessionStatus ''user-1-mybot''
      (step open_session (ConnectionUpdate 0 logout_update)) = None"
    by blast
  from t have "timers (step open_session (ConnectionUpdate 0 logout_update)) = timers open_session"
    by blast
  then have t2: "timers (step open_session (ConnectionUpdate 0 logout_update)) =
      [(10000, QrTimeout 0)]"
    by (simp only: g(2))
  from t m have t3: "getSessionStatus ''user-1-mybot''
     (run (step open_session (ConnectionUpdate 0 logout_update)) [Advance 60000]) = None"
    by blast
  from g(1) t1 a t2 t3 show ?thesis by blast
qed

text \<open>
  C6. A close with any reason other than logout, handled on the socket of a call \<open>c\<close> in
  a reachable state, sets one timer, due 5000 ms later, that calls
  \<^verbatim>\<open>createWhatsAppBot\<close> with the \<open>sessionName\<close> and \<open>userId\<close> of \<open>c\<close>. The timer is still
  pending after less than 5000 ms. After 5000 ms a new call with these arguments exists,
  suspended at its \<^verbatim>\<open>await\<close>; when its credentials load and its socket is made, the
  session is stored again with \<open>isConnected = False\<close>, and a \<^verbatim>\<open>connection.update\<close> with
  \<^verbatim>\<open>open\<close> on the new socket sets \<open>isConnected = True\<close>, with no call by the caller.
\<close>

theorem transient_close_schedules_recreation:
  assumes "s = run (init wd ds fs) ins"
    and "c < length (calls s)" and "phase (calls s ! c) = Running"
    and "connection u = Some Close" and "statusCode u \<noteq> Some DisconnectReason_loggedOut"
    and "name = c_sessionName (calls s ! c)" and "uid = c_userId (calls s ! c)"
    and "s1 = step s (ConnectionUpdate c u)"
    and "s2 = step s1 (Advance 5000)"
  shows "timers s1 = timers s @ [(now s + 5000, Reconnect name uid)] \<and>
         (\<forall>k<5000. (now s + 5000, Reconnect name uid) \<in> set (timers (step s1 (Advance k)))) \<and>
         (\<exists>c'. length (calls s) \<le> c' \<and> c' < length (calls s2) \<and>
            calls s2 ! c' = fresh_call name uid \<and>
            (\<forall>u'. connection u' = Some Open \<longrightarrow>
               getSessionStatus (mk_sessionId uid name) (step s2 (AuthLoaded c' None)) =
                 Some \<lparr>sessionId = mk_sessionId uid name, socket = c', qrCode = None,
                       isConnected = False, userId = uid\<rparr> \<and>
               getSessionStatus (mk_sessionId uid name)
                  (step (step s2 (AuthLoaded c' None)) (ConnectionUpdate c' u')) =
                 Some \<lparr>sessionId = mk_sessionId uid name, socket = c', qrCode = None,
                       isConnected = True, userId = uid\<rparr>))"
proof -
  have "later (calls s ! c) (calls (on_qr c u s) ! c)"
    using on_qr_later [OF assms(2), of c u] by blast
  then have nm: "c_sessionName (calls (on_qr c u s) ! c) = name"
      "c_userId (calls (on_qr c u s) ! c) = uid"
    by (simp_all add: later_def assms(6,7))
  have t1: "timers s1 = timers s @ [(now s + 5000, Reconnect name uid)]"
    unfolding assms(8) using assms(2-5) nm
    by (simp add: on_connection_update_def on_connection_def Let_def)
  have n1: "now s1 = now s" unfolding assms(8) by simp
  have m: "(now s1 + 5000, Reconnect name uid) \<in> set (timers s1)"
    unfolding t1 n1 by simp
  have a: "(now s + 5000, Reconnect name uid) \<in> set (timers (step s1 (Advance k)))"
    if "k < 5000" for k
    using run_until_keeps_later [of "(now s1 + 5000, Reconnect name uid)" s1 "now s1 + k"] m that
    by (simp add: advance_def n1)
  have "state_ok s" using assms(1) by (simp add: state_ok_reachable)
  then have "state_ok s1" unfolding assms(8) by (rule state_ok_step)
  then have tc: "timers_calls s1" by (simp add: state_ok_def)
  have "dirs_ok s" using assms(1) by (simp add: dirs_ok_reachable)
  with assms(2,3) have "existsSync (authDir (cwd s) (call_sessionId (calls s ! c))) (dirs s)"
    by (simp add: dirs_ok_def)
  moreover have "cwd s1 = cwd s" "dirs s1 = dirs s"
    unfolding assms(8)
    by (simp_all add: on_connection_update_def on_connection_def on_qr_def resolve_def Let_def
          split: option.splits)
  ultimately have ex: "existsSync (authDir (cwd s1) (mk_sessionId uid name)) (dirs s1)"
    by (simp add: call_sessionId_def assms(6,7))
  from run_until_fires_reconnect [OF tc m order_refl ex]
  obtain c' where c': "length (calls s1) \<le> c'" "c' < length (calls (run_until (now s1 + 5000) s1))"
    "calls (run_until (now s1 + 5000) s1) ! c' = fresh_call name uid"
    by blast
  have cl: "calls s2 = calls (run_until (now s1 + 5000) s1)"
    unfolding assms(9) by (simp add: advance_def)
  have "length (calls s) \<le> length (calls s1)"
    using step_later [of _ s "ConnectionUpdate c u"] unfolding assms(8)
    by (meson not_le_imp_less order_less_imp_le linorder_not_le)
  with c' cl have b: "length (calls s) \<le> c'" "c' < length (calls s2)"
    "calls s2 ! c' = fresh_call name uid"
    by simp_all
  note r = recreated_session_opens [OF b(2,3)]
  from t1 a b r show ?thesis by blast
qed

theorem transient_close_schedules_recreation_witness:
  "timers (step open_session (ConnectionUpdate 0 (close_update (Some 428)))) =
     [(10000, QrTimeout 0), (5000, Reconnect ''mybot'' ''user-1'')] \<and>
   (5000, Reconnect ''mybot'' ''user-1'') \<in> set (timers (step closed_session (Advance 4999))) \<and>
   calls (step closed_session (Advance 5000)) ! 1 = fresh_call ''mybot'' ''user-1'' \<and>
   getSessionStatus ''user-1-mybot''
     (step (step (step closed_session (Advance 5000)) (AuthLoaded 1 None))
        (ConnectionUpdate 1 open_update)) =
     Some \<lparr>sessionId = ''user-1-mybot'', socket = 1, qrCode = None, isConnected = True,
           userId = ''user-1''\<rparr>"
proof -
  have h: "0 < length (calls open_session)" "phase (calls open_session ! 0) = Running"
    "connection (close_update (Some 428)) = Some Close"
    "statusCode (close_update (Some 428)) \<noteq> Some DisconnectReason_loggedOut"
    "''mybot'' = c_sessionName (calls open_session ! 0)"
    "''user-1'' = c_userId (calls open_session ! 0)"
    "closed_session = step open_session (ConnectionUpdate 0 (close_update (Some 428)))"
    by (simp_all add: closed_session_def open_session_def model_defs)
  have g: "timers open_session = [(10000, QrTimeout 0)]" "now open_session = 0"
    "length (calls open_session) = 1"
    "length (calls (step closed_session (Advance 5000))) = 2"
    "connection open_update = Some Open"
    "mk_sessionId ''user-1'' ''mybot'' = ''user-1-mybot''"
    by (simp_all add: closed_session_def open_session_def model_defs)
  note t = transient_close_schedules_recreation [OF open_session_def h refl]
  from t g(1,2) have t1: "timers (step open_session (ConnectionUpdate 0 (close_update (Some 428)))) =
     [(10000, QrTimeout 0), (5000, Reconnect ''mybot'' ''user-1'')]"
    unfolding h(7) [symmetric] by simp
  from t g(2) have t2: "(5000, Reconnect ''mybot'' ''user-1'') \<in>
      set (timers (step closed_session (Advance 4999)))"
    by (simp del: step.simps)
  from t obtain c' where c': "length (calls open_session) \<le> c'"
    "c' < length (calls (step closed_session (Advance 5000)))"
    "calls (step closed_session (Advance 5000)) ! c' = fresh_call ''mybot'' ''user-1''"
    "\<forall>u'. connection u' = Some Open \<longrightarrow>
       getSessionStatus (mk_sessionId ''user-1'' ''mybot'')
          (step (step (step closed_session (Advance 5000)) (AuthLoaded c' None))
             (ConnectionUpdate c' u')) =
         Some \<lparr>sessionId = mk_sessionId ''user-1'' ''mybot'', socket = c', qrCode = None,
               isConnected = True, userId = ''user-1''\<rparr>"
    by blast
  from c'(1,2) g(3,4) have "c' = 1" by simp
  with c'(3,4) g(5,6) t1 t2 show ?thesis by (simp del: step.simps)
qed

text \<open>
  C7. \<open>disconnectBot\<close> on a session id absent from the registry returns false and leaves
  the state as it is. On a present id it returns true, calls \<^verbatim>\<open>end()\<close> on the socket of
  the entry and removes the entry; \<open>getSessionStatus\<close> then finds nothing, and keeps
  finding nothing through all turns in which no call stores a session with this id anew.
\<close>

theorem disconnectBot_contract:
  "(getSessionStatus sid s = None \<longrightarrow> disconnectBot sid s = (False, s)) \<and>
   (\<forall>b. getSessionStatus sid s = Some b \<longrightarrow>
      fst (disconnectBot sid s) = True \<and>
      ended (snd (disconnectBot sid s)) = ended s @ [socket b] \<and>
      sid \<notin> fst ` set (activeSessions (snd (disconnectBot sid s))) \<and>
      getSessionStatus sid (snd (disconnectBot sid s)) = None \<and>
      (\<forall>more. no_creation sid (snd (disconnectBot sid s)) more \<longrightarrow>
         getSessionStatus sid (run (snd (disconnectBot sid s)) more) = None))"
proof (intro conjI allI impI)
  assume "getSessionStatus sid s = None"
  then show "disconnectBot sid s = (False, s)"
    by (simp add: disconnectBot_def getSessionStatus_def)
next
  fix b
  assume b: "getSessionStatus sid s = Some b"
  then show "fst (disconnectBot sid s) = True"
    and "ended (snd (disconnectBot sid s)) = ended s @ [socket b]"
    by (simp_all add: disconnectBot_def getSessionStatus_def)
  from b show n: "getSessionStatus sid (snd (disconnectBot sid s)) = None"
    by (simp add: disconnectBot_def getSessionStatus_def delete_conv')
  then show "sid \<notin> fst ` set (activeSessions (snd (disconnectBot sid s)))"
    by (simp add: status_None_keys)
  fix more
  assume "no_creation sid (snd (disconnectBot sid s)) more"
  with n show "getSessionStatus sid (run (snd (disconnectBot sid s)) more) = None"
    by (rule status_stays_None)
qed

theorem disconnectBot_contract_witness:
  "disconnectBot ''user-1-mybot'' fresh_process = (False, fresh_process) \<and>
   getSessionStatus ''user-1-mybot'' started_session =
     Some \<lparr>sessionId = ''user-1-mybot'', socket = 0, qrCode = None, isConnected = False,
           userId = ''user-1''\<rparr> \<and>
   fst (disconnectBot ''user-1-mybot'' started_session) = True \<and>
   ended (snd (disconnectBot ''user-1-mybot'' started_session)) = [0] \<and>
   getSessionStatus ''user-1-mybot'' (snd (disconnectBot ''user-1-mybot'' started_session)) = None \<and>
   getSessionStatus ''user-1-mybot''
     (run (snd (disconnectBot ''user-1-mybot'' started_session))
        [Create ''other'' ''user-1'', AuthLoaded 1 None, Advance 5000]) = None"
proof -
  have h1: "getSessionStatus ''user-1-mybot'' fresh_process = None"
    by (simp add: model_defs)
  have h2: "getSessionStatus ''user-1-mybot'' started_session =
     Some \<lparr>sessionId = ''user-1-mybot'', socket = 0, qrCode = None, isConnected = False,
           userId = ''user-1''\<rparr>"
    by (simp add: model_defs)
  have h3: "no_creation ''user-1-mybot'' (snd (disconnectBot ''user-1-mybot'' started_session))
        [Create ''other'' ''user-1'', AuthLoaded 1 None, Advance 5000]"
    by (simp add: model_defs)
  have h4: "ended started_session = []"
    by (simp add: model_defs)
  from disconnectBot_contract [of "''user-1-mybot''" fresh_process] h1
  have a: "disconnectBot ''user-1-mybot'' fresh_process = (False, fresh_process)"
    by blast
  note b = disconnectBot_contract [of "''user-1-mybot''" started_session, THEN conjunct2,
      rule_format, OF h2]
  from b have b1: "fst (disconnectBot ''user-1-mybot'' started_session) = True"
    by blast
  from b h4 have b2: "ended (snd (disconnectBot ''user-1-mybot'' started_session)) = [0]"
    by simp
  from b have b3: "getSessionStatus ''user-1-mybot''
      (snd (disconnectBot ''user-1-mybot'' started_session)) = None"
    by blast
  from b h3 have b4: "getSessionStatus ''user-1-mybot''
     (run (snd (disconnectBot ''user-1-mybot'' started_session))
        [Create ''other'' ''user-1'', AuthLoaded 1 None, Advance 5000]) = None"
    by blast
  from a h2 b1 b2 b3 b4 show ?thesis by blast
qed

text \<open>
  C8. In every reachable state the keys of the registry are distinct, so at most one entry
  is stored under a session id. When the executor of a call stores a session under an id
  that is present, the keys of the registry stay the same and the entry under the id is
  the new one, with the new socket.
\<close>

theorem registry_one_entry_per_sessionId:
  "distinct (map fst (activeSessions (run (init wd ds fs) ins))) \<and>
   length (filter (\<lambda>e. fst e = sid) (activeSessions (run (init wd ds fs) ins))) \<le> 1 \<and>
   (creates sid s (AuthLoaded c None) \<and> getSessionStatus sid s \<noteq> None \<longrightarrow>
      map fst (activeSessions (step s (AuthLoaded c None))) = map fst (activeSessions s) \<and>
      (\<exists>b. getSessionStatus sid (step s (AuthLoaded c None)) = Some b \<and> socket b = c))"
proof (intro conjI impI)
  have ok: "registry_ok (run (init wd ds fs) ins)"
    using state_ok_reachable [of wd ds fs ins] by (simp add: state_ok_def)
  then show d: "distinct (map fst (activeSessions (run (init wd ds fs) ins)))"
    by (simp add: registry_ok_def)
  have "distinct xs \<Longrightarrow> length (filter (\<lambda>k. k = sid) xs) \<le> 1" for xs :: "string list"
    by (induction xs) (auto simp: filter_empty_conv)
  from this [OF d] show "length (filter (\<lambda>e. fst e = sid) (activeSessions (run (init wd ds fs) ins))) \<le> 1"
    by (simp add: filter_map comp_def)
next
  assume a: "creates sid s (AuthLoaded c None) \<and> getSessionStatus sid s \<noteq> None"
  then have "sid \<in> fst ` set (activeSessions s)"
    by (simp add: status_None_keys)
  with a show "map fst (activeSessions (step s (AuthLoaded c None))) = map fst (activeSessions s)"
    by (simp add: createWhatsAppBot_resume_def Let_def update_keys)
  from a show "\<exists>b. getSessionStatus sid (step s (AuthLoaded c None)) = Some b \<and> socket b = c"
    by (simp add: getSessionStatus_def createWhatsAppBot_resume_def Let_def update_conv')
qed

theorem registry_one_entry_per_sessionId_witness:
  "creates ''user-1-mybot'' reconnected_session (AuthLoaded 1 None) \<and>
   getSessionStatus ''user-1-mybot'' reconnected_session \<noteq> None \<and>
   map fst (activeSessions reconnected_session) = [''user-1-mybot''] \<and>
   map fst (activeSessions (step reconnected_session (AuthLoaded 1 None))) = [''user-1-mybot''] \<and>
   (\<exists>b. getSessionStatus ''user-1-mybot'' (step reconnected_session (AuthLoaded 1 None)) = Some b \<and>
      socket b = 1)"
proof -
  have h: "creates ''user-1-mybot'' reconnected_session (AuthLoaded 1 None) \<and>
      getSessionStatus ''user-1-mybot'' reconnected_session \<noteq> None"
    by (simp add: reconnected_session_def model_defs)
  have k: "map fst (activeSessions reconnected_session) = [''user-1-mybot'']"
    by (simp add: reconnected_session_def model_defs)
  note t = registry_one_entry_per_sessionId [of "''/app''" "{}" "\<lambda>p. None" "[]" "''user-1-mybot''"
      reconnected_session 1, THEN conjunct2, THEN conjunct2, rule_format, OF h]
  from t k have "map fst (activeSessions (step reconnected_session (AuthLoaded 1 None))) =
      [''user-1-mybot'']"
    by simp
  with h k t show ?thesis by blast
qed

text \<open>
  C9, as the code has it. The session id is \<open>userId\<close>, a hyphen and \<open>sessionName\<close>: a
  function of the pair alone, and the id of the call that \<^verbatim>\<open>createWhatsAppBot\<close> starts.
  The credential directory is \<^verbatim>\<open>path.join(process.cwd(), 'auth_sessions', sessionId)\<close>.
  When it exists at the call, the directories are left as they are. When it is missing
  and the file system refuses none of the missing directories on the way to it, it is
  made together with its missing ancestors, and nothing else is made. When it is missing
  and \<^verbatim>\<open>mkdirSync\<close> throws, the file system has refused a missing directory on the way,
  the credential directory is not made, and the call is rejected with that error at once,
  with no session stored and no timer set. When the session id contains no \<^verbatim>\<open>/\<close>, the
  credential directory is the one named by the literal session id in \<^verbatim>\<open>auth_sessions\<close>
  under the working directory.
\<close>

theorem sessionId_and_authDir:
  "mk_sessionId uid name = uid @ ''-'' @ name \<and>
   call_sessionId (calls (createWhatsAppBot_begin name uid s) ! length (calls s)) =
     mk_sessionId uid name \<and>
   (existsSync (authDir (cwd s) (mk_sessionId uid name)) (dirs s) \<longrightarrow>
      dirs (createWhatsAppBot_begin name uid s) = dirs s \<and>
      calls (createWhatsAppBot_begin name uid s) ! length (calls s) = fresh_call name uid) \<and>
   (\<not> existsSync (authDir (cwd s) (mk_sessionId uid name)) (dirs s) \<and>
    (\<forall>q \<in> set (tl (prefixes (authDir (cwd s) (mk_sessionId uid name)))).
        q \<notin> dirs s \<longrightarrow> mkdir_error s q = None) \<longrightarrow>
      authDir (cwd s) (mk_sessionId uid name) \<in> dirs (createWhatsAppBot_begin name uid s) \<and>
      dirs (createWhatsAppBot_begin name uid s) =
        dirs s \<union> set (tl (prefixes (authDir (cwd s) (mk_sessionId uid name)))) \<and>
      calls (createWhatsAppBot_begin name uid s) ! length (calls s) = fresh_call name uid) \<and>
   (\<not> existsSync (authDir (cwd s) (mk_sessionId uid name)) (dirs s) \<and>
    fst (mkdirSync_recursive (mkdir_error s) (authDir (cwd s) (mk_sessionId uid name)) (dirs s)) =
      Some e \<longrightarrow>
      (\<exists>q \<in> set (tl (prefixes (authDir (cwd s) (mk_sessionId uid name)))).
          q \<notin> dirs s \<and> mkdir_error s q = Some e) \<and>
      authDir (cwd s) (mk_sessionId uid name) \<notin> dirs (createWhatsAppBot_begin name uid s) \<and>
      dirs s \<subseteq> dirs (createWhatsAppBot_begin name uid s) \<and>
      calls (createWhatsAppBot_begin name uid s) ! length (calls s) =
        \<lparr>c_sessionName = name, c_userId = uid, phase = Aborted, qrCodeGenerated = False,
         result = Rejected e\<rparr> \<and>
      activeSessions (createWhatsAppBot_begin name uid s) = activeSessions s \<and>
      timers (createWhatsAppBot_begin name uid s) = timers s) \<and>
   (CHR ''/'' \<notin> set (mk_sessionId uid name) \<longrightarrow>
      authDir (cwd s) (mk_sessionId uid name) =
        path_join [cwd s, ''auth_sessions''] @ [mk_sessionId uid name])"
proof (intro conjI impI)
  let ?d = "authDir (cwd s) (mk_sessionId uid name)"
  let ?s' = "createWhatsAppBot_begin name uid s"
  show "mk_sessionId uid name = uid @ ''-'' @ name"
    by (simp add: mk_sessionId_def)
  show "call_sessionId (calls ?s' ! length (calls s)) = mk_sessionId uid name"
    by (simp add: createWhatsAppBot_begin_def Let_def call_sessionId_def)
  show "CHR ''/'' \<notin> set (mk_sessionId uid name) \<Longrightarrow>
      ?d = path_join [cwd s, ''auth_sessions''] @ [mk_sessionId uid name]"
    by (rule authDir_plain)
  show "activeSessions ?s' = activeSessions s" "timers ?s' = timers s"
    by simp_all
next
  let ?d = "authDir (cwd s) (mk_sessionId uid name)"
  let ?s' = "createWhatsAppBot_begin name uid s"
  assume "existsSync ?d (dirs s)"
  then show "dirs ?s' = dirs s" "calls ?s' ! length (calls s) = fresh_call name uid"
    by (simp_all add: createWhatsAppBot_begin_def Let_def ensure_authDir_def fresh_call_def)
next
  let ?d = "authDir (cwd s) (mk_sessionId uid name)"
  let ?s' = "createWhatsAppBot_begin name uid s"
  assume a: "\<not> existsSync ?d (dirs s) \<and>
    (\<forall>q \<in> set (tl (prefixes ?d)). q \<notin> dirs s \<longrightarrow> mkdir_error s q = None)"
  then have d: "?d \<noteq> []" by (simp add: existsSync_def)
  from a have f: "fst (mkdir_each (mkdir_error s) (tl (prefixes ?d)) (dirs s)) = None"
    by (intro mkdir_each_allowed) blast+
  then have m: "snd (mkdir_each (mkdir_error s) (tl (prefixes ?d)) (dirs s)) =
      dirs s \<union> set (tl (prefixes ?d))"
    by (rule mkdir_each_made)
  from a f m show e: "dirs ?s' = dirs s \<union> set (tl (prefixes ?d))"
    by (simp add: createWhatsAppBot_begin_def Let_def ensure_authDir_def mkdirSync_recursive_def)
  have "?d \<in> set (tl (prefixes ?d))"
    using tl_prefixes [OF d] last_in_set [of "tl (prefixes ?d)"] by auto
  then show "?d \<in> dirs ?s'" unfolding e by simp
  from a f show "calls ?s' ! length (calls s) = fresh_call name uid"
    by (simp add: createWhatsAppBot_begin_def Let_def ensure_authDir_def mkdirSync_recursive_def
          fresh_call_def)
next
  let ?d = "authDir (cwd s) (mk_sessionId uid name)"
  let ?s' = "createWhatsAppBot_begin name uid s"
  assume a: "\<not> existsSync ?d (dirs s) \<and>
    fst (mkdirSync_recursive (mkdir_error s) ?d (dirs s)) = Some e"
  then have d: "?d \<noteq> []" "?d \<notin> dirs s" by (simp_all add: existsSync_def)
  from a have f: "fst (mkdir_each (mkdir_error s) (tl (prefixes ?d)) (dirs s)) = Some e"
    by (simp add: mkdirSync_recursive_def)
  from mkdir_each_refused [OF f]
  show "\<exists>q \<in> set (tl (prefixes ?d)). q \<notin> dirs s \<and> mkdir_error s q = Some e" .
  have ds: "dirs ?s' = snd (mkdir_each (mkdir_error s) (tl (prefixes ?d)) (dirs s))"
    using a by (simp add: createWhatsAppBot_begin_def Let_def ensure_authDir_def
        mkdirSync_recursive_def)
  from mkdir_each_last_missing [OF f distinct_tl_prefixes] d tl_prefixes [OF d(1)]
  show "?d \<notin> dirs ?s'" unfolding ds by simp
  show "dirs s \<subseteq> dirs ?s'" by (rule dirs_begin_mono)
  from a f show "calls ?s' ! length (calls s) =
      \<lparr>c_sessionName = name, c_userId = uid, phase = Aborted, qrCodeGenerated = False,
       result = Rejected e\<rparr>"
    by (simp add: createWhatsAppBot_begin_def Let_def ensure_authDir_def mkdirSync_recursive_def)
qed

theorem sessionId_and_authDir_witness:
  "CHR ''/'' \<notin> set (mk_sessionId ''user-1'' ''mybot'') \<and>
   mk_sessionId ''user-1'' ''mybot'' = ''user-1-mybot'' \<and>
   authDir (cwd fresh_process) (mk_sessionId ''user-1'' ''mybot'') =
     [''app'', ''auth_sessions'', ''user-1-mybot''] \<and>
   \<not> existsSync (authDir (cwd fresh_process) (mk_sessionId ''user-1'' ''mybot''))
       (dirs fresh_process) \<and>
   dirs (createWhatsAppBot_begin ''mybot'' ''user-1'' fresh_process) =
     {[''app''], [''app'', ''auth_sessions''], [''app'', ''auth_sessions'', ''user-1-mybot'']} \<and>
   calls (createWhatsAppBot_begin ''mybot'' ''user-1'' fresh_process) ! 0 =
     fresh_call ''mybot'' ''user-1'' \<and>
   existsSync (authDir (cwd fresh_process) (mk_sessionId ''user-1'' ''mybot''))
       (dirs (createWhatsAppBot_begin ''mybot'' ''user-1'' fresh_process)) \<and>
   dirs (createWhatsAppBot_begin ''mybot'' ''user-1''
          (createWhatsAppBot_begin ''mybot'' ''user-1'' fresh_process)) =
     dirs (createWhatsAppBot_begin ''mybot'' ''user-1'' fresh_process) \<and>
   fst (mkdirSync_recursive (mkdir_error readonly_process)
          (authDir (cwd readonly_process) (mk_sessionId ''user-1'' ''mybot''))
          (dirs readonly_process)) = Some ''EROFS'' \<and>
   authDir (cwd readonly_process) (mk_sessionId ''user-1'' ''mybot'') \<notin>
     dirs (createWhatsAppBot_begin ''mybot'' ''user-1'' readonly_process) \<and>
   result (calls (createWhatsAppBot_begin ''mybot'' ''user-1'' readonly_process) ! 0) =
     Rejected ''EROFS''"
proof -
  let ?d = "authDir (cwd fresh_process) (mk_sessionId ''user-1'' ''mybot'')"
  let ?s1 = "createWhatsAppBot_begin ''mybot'' ''user-1'' fresh_process"
  let ?r = "createWhatsAppBot_begin ''mybot'' ''user-1'' readonly_process"
  have h: "CHR ''/'' \<notin> set (mk_sessionId ''user-1'' ''mybot'')"
    by (simp add: mk_sessionId_def)
  have j: "path_join [cwd fresh_process, ''auth_sessions''] = [''app'', ''auth_sessions'']"
    by (simp add: model_defs)
  note a = sessionId_and_authDir [of "''user-1''" "''mybot''" fresh_process]
  note b = sessionId_and_authDir [of "''user-1''" "''mybot''" ?s1]
  note c = sessionId_and_authDir [of "''user-1''" "''mybot''" readonly_process "''EROFS''"]
  from a have q: "mk_sessionId ''user-1'' ''mybot'' = ''user-1-mybot''" by simp
  from a h have p0: "?d = path_join [cwd fresh_process, ''auth_sessions''] @
      [mk_sessionId ''user-1'' ''mybot'']"
    by blast
  have p: "?d = [''app'', ''auth_sessions'', ''user-1-mybot'']"
    by (simp only: p0 j) (simp only: q append.simps)
  have n: "\<not> existsSync ?d (dirs fresh_process)"
    unfolding p by (simp add: fresh_process_def init_def existsSync_def)
  have ok: "\<forall>q \<in> set (tl (prefixes ?d)). q \<notin> dirs fresh_process \<longrightarrow>
      mkdir_error fresh_process q = None"
    by (simp add: fresh_process_def init_def)
  from a n ok have m: "?d \<in> dirs ?s1"
    and e: "dirs ?s1 = dirs fresh_process \<union> set (tl (prefixes ?d))"
    and k: "calls ?s1 ! length (calls fresh_process) = fresh_call ''mybot'' ''user-1''"
    by blast+
  have e': "dirs ?s1 =
      {[''app''], [''app'', ''auth_sessions''], [''app'', ''auth_sessions'', ''user-1-mybot'']}"
    unfolding e p by (auto simp: fresh_process_def init_def)
  have k': "calls ?s1 ! 0 = fresh_call ''mybot'' ''user-1''"
    using k by (simp add: fresh_process_def init_def)
  have x: "existsSync ?d (dirs ?s1)" using m by (simp add: existsSync_def)
  have cw: "cwd ?s1 = cwd fresh_process" by simp
  from b x have r: "dirs (createWhatsAppBot_begin ''mybot'' ''user-1'' ?s1) = dirs ?s1"
    unfolding cw by blast
  have rd: "authDir (cwd readonly_process) (mk_sessionId ''user-1'' ''mybot'') = ?d"
    by (simp add: readonly_process_def fresh_process_def init_def)
  have rn: "\<not> existsSync ?d (dirs readonly_process)"
    unfolding p by (simp add: readonly_process_def init_def existsSync_def)
  have rf: "fst (mkdirSync_recursive (mkdir_error readonly_process) ?d (dirs readonly_process)) =
      Some ''EROFS''"
    unfolding p by (simp add: readonly_process_def init_def mkdirSync_recursive_def)
  from c rn rf have c1: "?d \<notin> dirs ?r"
    and c2: "calls ?r ! length (calls readonly_process) =
        \<lparr>c_sessionName = ''mybot'', c_userId = ''user-1'', phase = Aborted,
         qrCodeGenerated = False, result = Rejected ''EROFS''\<rparr>"
    unfolding rd by blast+
  from c2 have c3: "result (calls ?r ! 0) = Rejected ''EROFS''"
    by (simp add: readonly_process_def init_def)
  from h q p n e' k' x r rf c1 c3 show ?thesis unfolding rd by blast
qed

text \<open>
  C9 as stated fails for a session name with a \<^verbatim>\<open>/\<close>: for the user \<^verbatim>\<open>u\<close> and the session
  name \<^verbatim>\<open>a/b\<close> the directory is \<^verbatim>\<open>/app/auth_sessions/u-a/b\<close>, whose name is \<^verbatim>\<open>b\<close> and
  not the session id \<^verbatim>\<open>u-a/b\<close>.
\<close>

theorem authDir_name_counterexample:
  "authDir ''/app'' (mk_sessionId ''u'' ''a/b'') = [''app'', ''auth_sessions'', ''u-a'', ''b''] \<and>
   last (authDir ''/app'' (mk_sessionId ''u'' ''a/b'')) \<noteq> mk_sessionId ''u'' ''a/b''"
  by (simp add: model_defs)

text \<open>
  C10. In every reachable state every entry of the registry has no \<open>qrCode\<close>, so every
  session that \<open>getSessionStatus\<close> returns has none. The executor of a call stores the
  entry with \<open>isConnected = False\<close> and no \<open>qrCode\<close>.
\<close>

theorem registry_never_holds_qrCode:
  "(\<forall>e \<in> set (activeSessions (run (init wd ds fs) ins)). qrCode (snd e) = None) \<and>
   (\<forall>b. getSessionStatus sid (run (init wd ds fs) ins) = Some b \<longrightarrow> qrCode b = None) \<and>
   (creates sid s (AuthLoaded c None) \<longrightarrow>
      (\<exists>b. getSessionStatus sid (step s (AuthLoaded c None)) = Some b \<and>
            qrCode b = None \<and> isConnected b = False \<and> socket b = c))"
proof (intro conjI ballI allI impI)
  have ok: "registry_ok (run (init wd ds fs) ins)"
    using state_ok_reachable [of wd ds fs ins] by (simp add: state_ok_def)
  show "qrCode (snd e) = None" if "e \<in> set (activeSessions (run (init wd ds fs) ins))" for e
    using ok that by (simp add: registry_ok_def list_all_iff entry_ok_def)
  then show "qrCode b = None" if "getSessionStatus sid (run (init wd ds fs) ins) = Some b" for b
    using map_of_SomeD [of "activeSessions (run (init wd ds fs) ins)" sid b] that
    by (fastforce simp: getSessionStatus_def)
  show "\<exists>b. getSessionStatus sid (step s (AuthLoaded c None)) = Some b \<and>
            qrCode b = None \<and> isConnected b = False \<and> socket b = c"
    if "creates sid s (AuthLoaded c None)"
    using that by (simp add: getSessionStatus_def createWhatsAppBot_resume_def Let_def update_conv')
qed

theorem registry_never_holds_qrCode_witness:
  "(''user-1-mybot'', \<lparr>sessionId = ''user-1-mybot'', socket = 0, qrCode = None,
       isConnected = False, userId = ''user-1''\<rparr>) \<in> set (activeSessions paired_session) \<and>
   result (calls paired_session ! 0) = Fulfilled (''user-1-mybot'', ''QR1'') \<and>
   getSessionStatus ''user-1-mybot'' paired_session =
     Some \<lparr>sessionId = ''user-1-mybot'', socket = 0, qrCode = None,
       isConnected = False, userId = ''user-1''\<rparr> \<and>
   qrCode \<lparr>sessionId = ''user-1-mybot'', socket = 0, qrCode = None,
       isConnected = False, userId = ''user-1''\<rparr> = None \<and>
   creates ''user-1-mybot'' (run fresh_process [Create ''mybot'' ''user-1'']) (AuthLoaded 0 None)"
proof -
  have r: "paired_session = run (init ''/app'' {} (\<lambda>p. None))
     [Create ''mybot'' ''user-1'', AuthLoaded 0 None, ConnectionUpdate 0 (qr_update ''QR1'')]"
    by (simp add: paired_session_def started_session_def fresh_process_def)
  have h: "getSessionStatus ''user-1-mybot'' paired_session =
     Some \<lparr>sessionId = ''user-1-mybot'', socket = 0, qrCode = None,
       isConnected = False, userId = ''user-1''\<rparr>"
    by (simp add: paired_session_def model_defs)
  have m: "(''user-1-mybot'', \<lparr>sessionId = ''user-1-mybot'', socket = 0, qrCode = None,
       isConnected = False, userId = ''user-1''\<rparr>) \<in> set (activeSessions paired_session)"
    by (simp add: paired_session_def model_defs)
  have c: "creates ''user-1-mybot'' (run fresh_process [Create ''mybot'' ''user-1'']) (AuthLoaded 0 None)"
    by (simp add: model_defs)
  have f: "result (calls paired_session ! 0) = Fulfilled (''user-1-mybot'', ''QR1'')"
    by (simp add: paired_session_def model_defs)
  from registry_never_holds_qrCode [of "''/app''" "{}"
      "\<lambda>p. None"
      "[Create ''mybot'' ''user-1'', AuthLoaded 0 None, ConnectionUpdate 0 (qr_update ''QR1'')]"
      "''user-1-mybot''" "run fresh_process [Create ''mybot'' ''user-1'']" 0]
    h m c f r
  show ?thesis by auto
qed

end
